theory Spec2Isabelle
  imports Complex_Main "HOL-Library.Finite_Map"
begin

section \<open>Python values on the wire\<close>

text \<open>
  Both peers exchange one JSON record per line.  \<^verbatim>\<open>json.loads\<close> yields a Python value;
  the code then inspects it with \<^verbatim>\<open>not v\<close>, \<^verbatim>\<open>v.get(k)\<close>, \<^verbatim>\<open>isinstance(v, int)\<close> and
  \<^verbatim>\<open>v.encode()\<close>.  A Python \<^verbatim>\<open>str\<close> is a list of code points, a \<^verbatim>\<open>dict\<close> an association
  list read with \<open>map_of\<close> (first binding wins; \<^verbatim>\<open>json.loads\<close> builds dicts with
  unique keys).  A float is an idealised real: NaN and the infinities are not represented.
\<close>

type_synonym pystr = "nat list"

datatype pyval =
    PNone
  | PBool bool
  | PInt int
  | PFloat real
  | PStr pystr
  | PList "pyval list"
  | PDict "(pystr \<times> pyval) list"

datatype py_error = AttributeError | UnicodeEncodeError

definition lit :: "string \<Rightarrow> pystr" where
  "lit s = map of_char s"

text \<open>Python truthiness, as tested by \<^verbatim>\<open>if not seg\<close> and \<^verbatim>\<open>if ack_msg and ...\<close>.\<close>

fun truthy :: "pyval \<Rightarrow> bool" where
  "truthy PNone = False"
| "truthy (PBool b) = b"
| "truthy (PInt i) = (i \<noteq> 0)"
| "truthy (PFloat r) = (r \<noteq> 0)"
| "truthy (PStr s) = (s \<noteq> [])"
| "truthy (PList xs) = (xs \<noteq> [])"
| "truthy (PDict d) = (d \<noteq> [])"

text \<open>\<^verbatim>\<open>d.get(k)\<close> and \<^verbatim>\<open>d.get(k, default)\<close>.\<close>

definition dict_get_default :: "(pystr \<times> pyval) list \<Rightarrow> pystr \<Rightarrow> pyval \<Rightarrow> pyval" where
  "dict_get_default d k dflt = (case map_of d k of None \<Rightarrow> dflt | Some v \<Rightarrow> v)"

definition dict_get :: "(pystr \<times> pyval) list \<Rightarrow> pystr \<Rightarrow> pyval" where
  "dict_get d k = dict_get_default d k PNone"

text \<open>
  \<^verbatim>\<open>isinstance(v, int)\<close>: true of integers and of booleans (\<^verbatim>\<open>bool\<close> is a subclass of
  \<^verbatim>\<open>int\<close>, \<^verbatim>\<open>True == 1\<close>), with the integer the value then behaves as.
\<close>

fun int_of :: "pyval \<Rightarrow> int option" where
  "int_of (PInt i) = Some i"
| "int_of (PBool b) = Some (if b then 1 else 0)"
| "int_of v = None"

text \<open>
  \<^verbatim>\<open>len(s.encode())\<close>: the number of UTF-8 bytes of a string; encoding a lone surrogate
  raises \<^verbatim>\<open>UnicodeEncodeError\<close> (the result \<open>None\<close>).
\<close>

definition utf8_size :: "nat \<Rightarrow> nat option" where
  "utf8_size c =
     (if c < 0x80 then Some 1
      else if c < 0x800 then Some 2
      else if 0xD800 \<le> c \<and> c \<le> 0xDFFF then None
      else if c < 0x10000 then Some 3
      else Some 4)"

fun encode_len :: "pystr \<Rightarrow> nat option" where
  "encode_len [] = Some 0"
| "encode_len (c # cs) =
     (case utf8_size c of
        None \<Rightarrow> None
      | Some n \<Rightarrow> (case encode_len cs of None \<Rightarrow> None | Some m \<Rightarrow> Some (n + m)))"

section \<open>Message codec\<close>

text \<open>
  \<^verbatim>\<open>recv_msg\<close> of either peer reads one line.  The body of its \<^verbatim>\<open>try\<close> (decode, strip,
  \<^verbatim>\<open>json.loads\<close>) is the parameter \<open>loads\<close>: \<open>None\<close> when it raises, the parsed value
  otherwise.  An empty read is the empty line.  Python's \<^verbatim>\<open>None\<close> is \<open>PNone\<close>.
\<close>

definition malformed :: pyval where
  "malformed = PDict [(lit ''type'', PStr (lit ''ERR'')), (lit ''reason'', PStr (lit ''bad_json''))]"

text \<open>server.py, \<^verbatim>\<open>recv_msg\<close>.\<close>

definition recv_msg :: "(string \<Rightarrow> pyval option) \<Rightarrow> string \<Rightarrow> pyval" where
  "recv_msg loads line =
     (if line = [] then PNone
      else case loads line of Some v \<Rightarrow> v | None \<Rightarrow> malformed)"

text \<open>client.py, \<^verbatim>\<open>recv_msg\<close>.\<close>

definition recv_msg_client :: "(string \<Rightarrow> pyval option) \<Rightarrow> string \<Rightarrow> pyval" where
  "recv_msg_client loads line =
     (if line = [] then PNone
      else case loads line of Some v \<Rightarrow> v | None \<Rightarrow> PNone)"

section \<open>Receiver (server.py, \<^verbatim>\<open>handle_client\<close>)\<close>

record server_config =
  maximum_message_size :: int
  dynamic_message_size :: bool

record receiver =
  rcv_base :: int
  rcv_buffer :: "(int, pystr) fmap"
  app_data :: "pystr list"
  mss :: int

datatype status = Continue | Break | Raise py_error

datatype event = Send pyval | Print pystr

definition initial_receiver :: "server_config \<Rightarrow> receiver" where
  "initial_receiver cfg =
     \<lparr>rcv_base = 0, rcv_buffer = fmempty, app_data = [], mss = maximum_message_size cfg\<rparr>"

text \<open>\<^verbatim>\<open>send_ack\<close>: the object passed to \<^verbatim>\<open>json.dumps\<close>.\<close>

definition send_ack :: "server_config \<Rightarrow> receiver \<Rightarrow> pyval" where
  "send_ack cfg st =
     PDict ([(lit ''type'', PStr (lit ''ACK'')), (lit ''ack'', PInt (rcv_base st - 1))]
            @ (if dynamic_message_size cfg
               then [(lit ''maximum message size'', PInt (mss st))] else []))"

text \<open>
  The loop \<^verbatim>\<open>while rcv_base in rcv_buffer\<close>: each round pops one entry of a finite
  dictionary, so it ends.
\<close>

function drain :: "receiver \<Rightarrow> receiver" where
  "drain st =
     (case fmlookup (rcv_buffer st) (rcv_base st) of
        None \<Rightarrow> st
      | Some p \<Rightarrow>
          drain (st\<lparr>app_data := app_data st @ [p],
                    rcv_buffer := fmdrop (rcv_base st) (rcv_buffer st),
                    rcv_base := rcv_base st + 1\<rparr>))"
  by pat_completeness auto
termination
proof (relation "measure (\<lambda>st. fcard (fmdom (rcv_buffer st)))")
  show "wf (measure (\<lambda>st. fcard (fmdom (rcv_buffer st))))"
    by simp
next
  fix st :: receiver and p
  assume "fmlookup (rcv_buffer st) (rcv_base st) = Some p"
  then have "rcv_base st |\<in>| fmdom (rcv_buffer st)"
    by (rule fmdomI)
  then have "fcard (fmdom (rcv_buffer st) |-| {|rcv_base st|}) < fcard (fmdom (rcv_buffer st))"
    by (rule fcard_fminus1_less)
  then show "(st\<lparr>app_data := app_data st @ [p],
                 rcv_buffer := fmdrop (rcv_base st) (rcv_buffer st),
                 rcv_base := rcv_base st + 1\<rparr>, st)
             \<in> measure (\<lambda>st. fcard (fmdom (rcv_buffer st)))"
    by (simp del: fcard_fminus_finsert)
qed

declare drain.simps [simp del]

text \<open>Lines 175-179: store the payload, then deliver the contiguous run.\<close>

definition reassemble :: "int \<Rightarrow> pystr \<Rightarrow> receiver \<Rightarrow> receiver" where
  "reassemble seq payload st =
     (if seq \<ge> rcv_base st
      then drain (st\<lparr>rcv_buffer := fmupd seq payload (rcv_buffer st)\<rparr>)
      else st)"

text \<open>Lines 182-186: the receiver-side adaptation of the segment size.\<close>

definition adapt :: "server_config \<Rightarrow> receiver \<Rightarrow> receiver" where
  "adapt cfg st =
     (if dynamic_message_size cfg then
        (if fcard (fmdom (rcv_buffer st)) > 2 then st\<lparr>mss := max 20 (mss st - 20)\<rparr>
         else if rcv_buffer st = fmempty
              then st\<lparr>mss := min (maximum_message_size cfg) (mss st + 10)\<rparr>
         else st)
      else st)"

text \<open>Lines 155-188: a message of type DATA, with its \<^verbatim>\<open>seq\<close> and \<^verbatim>\<open>payload\<close> fields.\<close>

definition handle_data ::
  "server_config \<Rightarrow> pyval \<Rightarrow> pyval \<Rightarrow> receiver \<Rightarrow> status \<times> receiver \<times> event list" where
  "handle_data cfg seq payload st =
     (case int_of seq of
        None \<Rightarrow> (Continue, st, [Send (send_ack cfg st)])
      | Some q \<Rightarrow>
          if q < rcv_base st then (Continue, st, [Send (send_ack cfg st)])
          else (case payload of
                  PNone \<Rightarrow> (Continue, st, [Send (send_ack cfg st)])
                | PStr p \<Rightarrow>
                    (case encode_len p of
                       None \<Rightarrow> (Raise UnicodeEncodeError, st, [])
                     | Some n \<Rightarrow>
                         if int n > mss st then (Continue, st, [Send (send_ack cfg st)])
                         else let st' = adapt cfg (reassemble q p st)
                              in (Continue, st', [Send (send_ack cfg st')]))
                | _ \<Rightarrow> (Raise AttributeError, st, [])))"

definition final_message :: "receiver \<Rightarrow> pystr" where
  "final_message st =
     lit ''\<newline>--- FINAL MESSAGE ---\<newline>'' @ concat (app_data st)
       @ lit ''\<newline>--------------------\<newline>''"

text \<open>
  One round of the transfer loop (lines 142-188) on the value \<^verbatim>\<open>recv_msg\<close> returned:
  the status says whether the loop goes on, ends, or the handler is left by an exception.
\<close>

definition handle_segment ::
  "server_config \<Rightarrow> pyval \<Rightarrow> receiver \<Rightarrow> status \<times> receiver \<times> event list" where
  "handle_segment cfg seg st =
     (if \<not> truthy seg then (Break, st, [])
      else case seg of
        PDict d \<Rightarrow>
          let t = dict_get d (lit ''type'') in
          if t = PStr (lit ''FIN'')
          then (Break, st,
                [Print (final_message st), Send (PDict [(lit ''type'', PStr (lit ''FIN_ACK''))])])
          else if t \<noteq> PStr (lit ''DATA'') then (Continue, st, [])
          else handle_data cfg (dict_get d (lit ''seq''))
                 (dict_get_default d (lit ''payload'') (PStr [])) st
      | _ \<Rightarrow> (Raise AttributeError, st, []))"

text \<open>The loop over the values successive reads return; the list is a prefix of the session.\<close>

fun transfer_loop ::
  "server_config \<Rightarrow> pyval list \<Rightarrow> receiver \<Rightarrow> status \<times> receiver \<times> event list" where
  "transfer_loop cfg [] st = (Continue, st, [])"
| "transfer_loop cfg (seg # segs) st =
     (case handle_segment cfg seg st of
        (Continue, st', out) \<Rightarrow>
          (case transfer_loop cfg segs st' of (s, st'', out') \<Rightarrow> (s, st'', out @ out'))
      | r \<Rightarrow> r)"

text \<open>A DATA record as the sender builds it (client.py, lines 151 and 196).\<close>

definition data_msg :: "int \<Rightarrow> pystr \<Rightarrow> pyval" where
  "data_msg seq payload =
     PDict [(lit ''type'', PStr (lit ''DATA'')), (lit ''seq'', PInt seq),
            (lit ''payload'', PStr payload)]"

section \<open>Observations on receiver runs\<close>

text \<open>
  The acknowledgment values a run emits, read off the \<^verbatim>\<open>ACK\<close> records it sends.
\<close>

fun ack_of :: "event \<Rightarrow> int option" where
  "ack_of (Send (PDict a)) =
     (if dict_get a (lit ''type'') = PStr (lit ''ACK'') then int_of (dict_get a (lit ''ack''))
      else None)"
| "ack_of e = None"

fun acks :: "event list \<Rightarrow> int list" where
  "acks [] = []"
| "acks (e # es) = (case ack_of e of None \<Rightarrow> acks es | Some a \<Rightarrow> a # acks es)"

text \<open>
  The reassembly step applied to a sequence of arrivals \<open>(seq, payload)\<close>, in arrival order.
  \<open>agrees segs st\<close> says that the state holds nothing but segments of the source \<open>segs\<close>:
  the delivered list is the first \<open>rcv_base\<close> segments and every buffered entry is the
  segment of its number, at or above \<open>rcv_base\<close>.  \<open>covered st\<close> is the set of sequence
  numbers delivered or buffered.
\<close>

definition agrees :: "pystr list \<Rightarrow> receiver \<Rightarrow> bool" where
  "agrees segs st \<longleftrightarrow>
     0 \<le> rcv_base st \<and> rcv_base st \<le> int (length segs) \<and>
     app_data st = take (nat (rcv_base st)) segs \<and>
     (\<forall>q p. fmlookup (rcv_buffer st) q = Some p \<longrightarrow>
        rcv_base st \<le> q \<and> q < int (length segs) \<and> p = segs ! nat q)"

definition covered :: "receiver \<Rightarrow> int set" where
  "covered st = fmdom' (rcv_buffer st) \<union> {0..<rcv_base st}"

fun receive_all :: "(int \<times> pystr) list \<Rightarrow> receiver \<Rightarrow> receiver" where
  "receive_all [] st = st"
| "receive_all ((q, p) # arrivals) st = receive_all arrivals (reassemble q p st)"

section \<open>Sender (client.py, \<^verbatim>\<open>run_client\<close>)\<close>

text \<open>
  \<open>base\<close> starts as the integer 0 and becomes \<^verbatim>\<open>ack_num + 1\<close>, which is an integer or a
  float as the \<^verbatim>\<open>ack\<close> field was (\<open>num_val\<close> is the number it stands for; Python compares
  integers and floats exactly).  \<open>mms\<close> is whatever value the negotiation reply or an
  acknowledgment carried.  The floats are the finite ones: \<^verbatim>\<open>NaN\<close> in the \<^verbatim>\<open>ack\<close> field
  fails the comparison with \<open>base\<close> and changes nothing, and \<^verbatim>\<open>Infinity\<close> makes \<open>base\<close>
  infinite for the rest of the run, so neither leads to a state with an integer \<open>base\<close>
  that finite inputs do not reach; as \<open>mms\<close> they act like any other float.
\<close>

datatype pynum = NInt int | NFloat real

datatype sender_error = TypeError | OverflowError

fun num_val :: "pynum \<Rightarrow> real" where
  "num_val (NInt i) = of_int i"
| "num_val (NFloat r) = r"

fun num_of :: "pyval \<Rightarrow> pynum option" where
  "num_of (PInt i) = Some (NInt i)"
| "num_of (PBool b) = Some (NInt (if b then 1 else 0))"
| "num_of (PFloat r) = Some (NFloat r)"
| "num_of v = None"

text \<open>
  The configuration and negotiated values the loop reads, and the variables it updates.
  Every call of \<^verbatim>\<open>time.time()\<close> is an input of the step that makes it.  The runtime's
  double-precision arithmetic is a parameter: \<open>float_add_int x k\<close> is \<^verbatim>\<open>x + k\<close> for a float
  \<open>x\<close> and an integer \<open>k\<close> (\<open>None\<close> when converting \<open>k\<close> raises \<^verbatim>\<open>OverflowError\<close>),
  \<open>float_sub x y\<close> is \<^verbatim>\<open>x - y\<close> for floats.  Console output is left out.
\<close>

record client_params =
  file_data :: pystr
  window_size :: int
  timeout :: real
  is_dynamic :: bool
  float_add_int :: "real \<Rightarrow> int \<Rightarrow> real option"
  float_sub :: "real \<Rightarrow> real \<Rightarrow> real"

record sender =
  file_cursor :: int
  sent_packets_buffer :: "(int, pystr) fmap"
  base :: pynum
  next_seq_num :: int
  timer_start :: "real option"
  mms :: pyval

definition initial_sender :: "pyval \<Rightarrow> sender" where
  "initial_sender m =
     \<lparr>file_cursor = 0, sent_packets_buffer = fmempty, base = NInt 0, next_seq_num = 0,
      timer_start = None, mms = m\<rparr>"

text \<open>
  Arithmetic without rounding, for the concrete runs below: they only add and subtract
  doubles whose sum or difference is a double again.
\<close>

definition exact_add_int :: "real \<Rightarrow> int \<Rightarrow> real option" where
  "exact_add_int x k = Some (x + of_int k)"

definition exact_sub :: "real \<Rightarrow> real \<Rightarrow> real" where
  "exact_sub x y = x - y"

text \<open>\<^verbatim>\<open>n + k\<close> for \<open>n\<close> an integer or a float and \<open>k\<close> an integer.\<close>

fun add_int :: "client_params \<Rightarrow> pynum \<Rightarrow> int \<Rightarrow> sender_error + pynum" where
  "add_int c (NInt a) k = Inr (NInt (a + k))"
| "add_int c (NFloat x) k =
     (case float_add_int c x k of None \<Rightarrow> Inl OverflowError | Some y \<Rightarrow> Inr (NFloat y))"

text \<open>Python's \<^verbatim>\<open>xs[i:j]\<close>: negative indices count from the end, all are clamped.\<close>

definition slice_index :: "int \<Rightarrow> int \<Rightarrow> nat" where
  "slice_index n i = nat (if i < 0 then max 0 (n + i) else min i n)"

definition py_slice :: "'a list \<Rightarrow> int \<Rightarrow> int \<Rightarrow> 'a list" where
  "py_slice xs i j =
     (let lo = slice_index (int (length xs)) i; hi = slice_index (int (length xs)) j
      in take (hi - lo) (drop lo xs))"

text \<open>
  Lines 146-159: the body of the fill loop after the slice at line 144 has been cut with
  the integer \<open>m\<close>.
\<close>

definition send_segment :: "client_params \<Rightarrow> real \<Rightarrow> int \<Rightarrow> sender \<Rightarrow> pyval \<times> sender" where
  "send_segment c now m s =
     (let payload = py_slice (file_data c) (file_cursor s) (file_cursor s + m);
          s1 = s\<lparr>sent_packets_buffer := fmupd (next_seq_num s) payload (sent_packets_buffer s)\<rparr>;
          s2 = (if num_val (base s1) = of_int (next_seq_num s1)
                then s1\<lparr>timer_start := Some now\<rparr> else s1)
      in (data_msg (next_seq_num s) payload,
          s2\<lparr>file_cursor := file_cursor s2 + int (length payload),
             next_seq_num := next_seq_num s2 + 1\<rparr>))"

text \<open>
  Lines 142-159: the fill loop.  \<^verbatim>\<open>base + window_size\<close> raises \<^verbatim>\<open>OverflowError\<close> when
  \<open>base\<close> is a float and the window size does not convert; the slice raises \<^verbatim>\<open>TypeError\<close>
  unless \<open>mms\<close> is an integer (or boolean).  Both leave the loop and \<^verbatim>\<open>run_client\<close>: the
  result names the error, with the messages sent and the state reached.  \<open>next_seq_num\<close>
  grows in every round and is bounded by \<open>base + window_size\<close>, so the loop ends.
\<close>

function fill ::
  "client_params \<Rightarrow> real \<Rightarrow> sender \<Rightarrow> sender_error option \<times> pyval list \<times> sender" where
  "fill c now s =
     (case add_int c (base s) (window_size c) of
        Inl e \<Rightarrow> (Some e, [], s)
      | Inr limit \<Rightarrow>
          if of_int (next_seq_num s) < num_val limit
             \<and> file_cursor s < int (length (file_data c))
          then (case int_of (mms s) of
                  None \<Rightarrow> (Some TypeError, [], s)
                | Some m \<Rightarrow>
                    (case fill c now (snd (send_segment c now m s)) of
                       (e, out, s') \<Rightarrow> (e, fst (send_segment c now m s) # out, s')))
          else (None, [], s))"
  by pat_completeness auto
termination
proof (relation "measure (\<lambda>(c, now, s).
         case add_int c (base s) (window_size c) of
           Inl e \<Rightarrow> 0
         | Inr limit \<Rightarrow> nat (\<lceil>num_val limit\<rceil> - next_seq_num s))")
  show "wf (measure (\<lambda>(c, now, s).
         case add_int c (base s) (window_size c) of
           Inl e \<Rightarrow> 0
         | Inr limit \<Rightarrow> nat (\<lceil>num_val limit\<rceil> - next_seq_num s)))"
    by simp
next
  fix c :: client_params and now :: real and s :: sender and limit m
  assume t: "add_int c (base s) (window_size c) = Inr limit"
    and w: "of_int (next_seq_num s) < num_val limit \<and> file_cursor s < int (length (file_data c))"
    and "int_of (mms s) = Some m"
  have b: "base (snd (send_segment c now m s)) = base s"
    and n: "next_seq_num (snd (send_segment c now m s)) = next_seq_num s + 1"
    by (simp_all add: send_segment_def Let_def)
  from w have "next_seq_num s < \<lceil>num_val limit\<rceil>"
    by (simp add: less_ceiling_iff)
  then show "((c, now, snd (send_segment c now m s)), c, now, s)
        \<in> measure (\<lambda>(c, now, s).
             case add_int c (base s) (window_size c) of
               Inl e \<Rightarrow> 0
             | Inr limit \<Rightarrow> nat (\<lceil>num_val limit\<rceil> - next_seq_num s))"
    by (simp add: b n t)
qed

declare fill.simps [simp del]

text \<open>
  Lines 169-180: an acknowledgment at or above \<open>base\<close>.  Nothing is removed from
  \<open>sent_packets_buffer\<close>, and any value is taken as the new \<open>mms\<close>.  If \<^verbatim>\<open>ack_num + 1\<close>
  raises, nothing has been assigned yet.
\<close>

definition accept_ack ::
  "client_params \<Rightarrow> real \<Rightarrow> (pystr \<times> pyval) list \<Rightarrow> pynum \<Rightarrow> sender \<Rightarrow> sender" where
  "accept_ack c now d ack_num s =
     (case add_int c ack_num 1 of
        Inl e \<Rightarrow> s
      | Inr b \<Rightarrow>
          let s1 = s\<lparr>base := b\<rparr>;
              s2 = s1\<lparr>timer_start :=
                        if num_val (base s1) < of_int (next_seq_num s1) then Some now else None\<rparr>
          in if is_dynamic c then
               (case map_of d (lit ''maximum message size'') of
                  None \<Rightarrow> s2
                | Some v \<Rightarrow> s2\<lparr>mms := v\<rparr>)
             else s2)"

text \<open>
  Lines 162-184, on the value \<^verbatim>\<open>recv_msg\<close> returned.  An exception inside the \<^verbatim>\<open>try\<close>
  (\<^verbatim>\<open>.get\<close> on a value that is no dict, \<^verbatim>\<open>>=\<close> between \<^verbatim>\<open>None\<close>, a string, a list or a dict
  and a number) is swallowed by the \<^verbatim>\<open>except\<close> before any variable is assigned.
\<close>

definition process_ack :: "client_params \<Rightarrow> real \<Rightarrow> pyval \<Rightarrow> sender \<Rightarrow> sender" where
  "process_ack c now ack_msg s =
     (if truthy ack_msg then
        (case ack_msg of
           PDict d \<Rightarrow>
             if dict_get d (lit ''type'') = PStr (lit ''ACK'') then
               (case num_of (dict_get d (lit ''ack'')) of
                  None \<Rightarrow> s
                | Some ack_num \<Rightarrow>
                    if num_val ack_num \<ge> num_val (base s) then accept_ack c now d ack_num s
                    else s)
             else s
         | _ \<Rightarrow> s)
      else s)"

text \<open>The read itself may raise (\<^verbatim>\<open>socket.timeout\<close>): the input \<open>None\<close>.\<close>

definition poll :: "client_params \<Rightarrow> real \<Rightarrow> pyval option \<Rightarrow> sender \<Rightarrow> sender" where
  "poll c now inp s = (case inp of None \<Rightarrow> s | Some ack_msg \<Rightarrow> process_ack c now ack_msg s)"

text \<open>
  Lines 187-196.  \<^verbatim>\<open>if timer_start and ...\<close> tests truthiness: a timer set at time \<open>0\<close> counts
  as not armed.  The elapsed time is the double \<open>float_sub now t0\<close>.  The new
  \<open>timer_start\<close> is read from the clock before the segments are resent; with a float
  \<open>base\<close>, \<^verbatim>\<open>range(base, next_seq_num)\<close> then raises \<^verbatim>\<open>TypeError\<close>.
\<close>

definition timer_expired :: "client_params \<Rightarrow> real \<Rightarrow> sender \<Rightarrow> bool" where
  "timer_expired c now s =
     (case timer_start s of
        None \<Rightarrow> False
      | Some t0 \<Rightarrow> t0 \<noteq> 0 \<and> float_sub c now t0 > timeout c)"

fun resend :: "(int, pystr) fmap \<Rightarrow> int list \<Rightarrow> pyval list" where
  "resend buf [] = []"
| "resend buf (seq # seqs) =
     (case fmlookup buf seq of
        Some p \<Rightarrow> data_msg seq p # resend buf seqs
      | None \<Rightarrow> resend buf seqs)"

definition check_timeout ::
  "client_params \<Rightarrow> real \<Rightarrow> real \<Rightarrow> sender \<Rightarrow> sender_error option \<times> pyval list \<times> sender" where
  "check_timeout c now now' s =
     (if timer_expired c now s then
        (case base s of
           NInt b \<Rightarrow>
             (None, resend (sent_packets_buffer s) [b..next_seq_num s - 1],
              s\<lparr>timer_start := Some now'\<rparr>)
         | NFloat r \<Rightarrow> (Some TypeError, [], s\<lparr>timer_start := Some now'\<rparr>))
      else (None, [], s))"

text \<open>
  One round of the loop at line 139 with the clock readings and the poll input of that
  round, and the loop over a list of such rounds (a prefix of the session).  An error ends
  the run.
\<close>

record clock =
  t_fill :: real
  t_ack :: real
  t_check :: real
  t_rearm :: real

definition iteration ::
  "client_params \<Rightarrow> clock \<Rightarrow> pyval option \<Rightarrow> sender
   \<Rightarrow> sender_error option \<times> pyval list \<times> sender" where
  "iteration c clk inp s =
     (case fill c (t_fill clk) s of
        (Some e, out1, s1) \<Rightarrow> (Some e, out1, s1)
      | (None, out1, s1) \<Rightarrow>
          (case check_timeout c (t_check clk) (t_rearm clk) (poll c (t_ack clk) inp s1) of
             (e, out2, s3) \<Rightarrow> (e, out1 @ out2, s3)))"

fun sender_loop ::
  "client_params \<Rightarrow> (clock \<times> pyval option) list \<Rightarrow> sender
   \<Rightarrow> sender_error option \<times> pyval list \<times> sender" where
  "sender_loop c [] s = (None, [], s)"
| "sender_loop c ((clk, inp) # rest) s =
     (if file_cursor s < int (length (file_data c)) \<or> num_val (base s) < of_int (next_seq_num s)
      then
        (case iteration c clk inp s of
           (Some e, out, s') \<Rightarrow> (Some e, out, s')
         | (None, out, s') \<Rightarrow>
             (case sender_loop c rest s' of (e, out', s'') \<Rightarrow> (e, out @ out', s'')))
      else (None, [], s))"

text \<open>
  The states at the observation points of the loop (after filling, after an
  acknowledgment, after the timeout check), with the messages sent so far.  \<open>ok\<close> restricts
  the poll inputs considered: \<open>ack_integral\<close> admits no float in the \<^verbatim>\<open>ack\<close> field,
  \<open>ack_in_flight\<close> admits an integer acknowledgment only when it names a segment already
  sent.  \<open>float_add_sane\<close> is a property of double-precision addition: the sum of a float
  and an integer that are not negative is not negative.
\<close>

definition ack_integral :: "pyval option \<Rightarrow> bool" where
  "ack_integral inp =
     (case inp of
        Some (PDict d) \<Rightarrow> (case dict_get d (lit ''ack'') of PFloat r \<Rightarrow> False | _ \<Rightarrow> True)
      | _ \<Rightarrow> True)"

definition ack_in_flight :: "sender \<Rightarrow> pyval option \<Rightarrow> bool" where
  "ack_in_flight s inp =
     (case inp of
        Some (PDict d) \<Rightarrow>
          (case int_of (dict_get d (lit ''ack'')) of Some a \<Rightarrow> a < next_seq_num s | None \<Rightarrow> True)
      | _ \<Rightarrow> True)"

definition honest_ack :: "sender \<Rightarrow> pyval option \<Rightarrow> bool" where
  "honest_ack s inp \<longleftrightarrow> ack_integral inp \<and> ack_in_flight s inp"

definition any_input :: "sender \<Rightarrow> pyval option \<Rightarrow> bool" where
  "any_input s inp = True"

definition float_add_sane :: "client_params \<Rightarrow> bool" where
  "float_add_sane c \<longleftrightarrow>
     (\<forall>x k y. 0 \<le> x \<and> 0 \<le> k \<and> float_add_int c x k = Some y \<longrightarrow> 0 \<le> y)"

inductive reachable ::
  "(sender \<Rightarrow> pyval option \<Rightarrow> bool) \<Rightarrow> client_params \<Rightarrow> pyval list \<Rightarrow> sender \<Rightarrow> bool"
  for ok :: "sender \<Rightarrow> pyval option \<Rightarrow> bool" and c :: client_params where
  start: "reachable ok c [] (initial_sender m)"
| filled: "reachable ok c tr s \<Longrightarrow> fill c now s = (None, out, s') \<Longrightarrow> reachable ok c (tr @ out) s'"
| polled: "reachable ok c tr s \<Longrightarrow> ok s inp \<Longrightarrow> reachable ok c tr (poll c now inp s)"
| checked: "reachable ok c tr s \<Longrightarrow> check_timeout c now now' s = (None, out, s')
            \<Longrightarrow> reachable ok c (tr @ out) s'"

definition sender_inv :: "pyval list \<Rightarrow> sender \<Rightarrow> bool" where
  "sender_inv tr s \<longleftrightarrow>
     0 \<le> num_val (base s) \<and> 0 \<le> next_seq_num s \<and>
     fmdom' (sent_packets_buffer s) = {0..<next_seq_num s} \<and>
     (\<forall>e \<in> set tr. \<exists>q p. e = data_msg q p) \<and>
     (\<forall>q p. data_msg q p \<in> set tr \<longleftrightarrow> fmlookup (sent_packets_buffer s) q = Some p)"

section \<open>Receiver: lemmas\<close>

lemma lit_eq_iff: "lit s = lit t \<longleftrightarrow> s = t"
proof -
  have "inj (of_char :: char \<Rightarrow> nat)"
    by (rule inj_on_inverseI [where g = char_of]) simp
  then show ?thesis
    unfolding lit_def by (simp add: inj_map_eq_map)
qed

lemma drain_idle: "fmlookup (rcv_buffer st) (rcv_base st) = None \<Longrightarrow> drain st = st"
  by (subst drain.simps) simp

lemma drain_step:
  "fmlookup (rcv_buffer st) (rcv_base st) = Some p \<Longrightarrow>
   drain st = drain (st\<lparr>app_data := app_data st @ [p],
                    rcv_buffer := fmdrop (rcv_base st) (rcv_buffer st),
                    rcv_base := rcv_base st + 1\<rparr>)"
  by (subst drain.simps) simp

lemma drain_mss: "mss (drain st) = mss st"
  by (induction st rule: drain.induct) (subst drain.simps, simp split: option.splits)

lemma drain_rcv_base_le: "rcv_base st \<le> rcv_base (drain st)"
proof (induction st rule: drain.induct)
  case (1 st)
  show ?case
  proof (cases "fmlookup (rcv_buffer st) (rcv_base st)")
    case None
    then show ?thesis by (subst drain.simps) simp
  next
    case (Some p)
    from "1" [OF Some] show ?thesis
      by (subst drain.simps) (simp add: Some)
  qed
qed

lemma drain_head_absent: "fmlookup (rcv_buffer (drain st)) (rcv_base (drain st)) = None"
proof (induction st rule: drain.induct)
  case (1 st)
  show ?case
  proof (cases "fmlookup (rcv_buffer st) (rcv_base st)")
    case None
    then show ?thesis by (subst (1 2) drain.simps) simp
  next
    case (Some p)
    from "1" [OF Some] show ?thesis
      by (subst (1 2) drain.simps) (simp add: Some)
  qed
qed

lemma drain_app_data_prefix:
  "take (length (app_data st)) (app_data (drain st)) = app_data st
   \<and> length (app_data st) \<le> length (app_data (drain st))"
proof (induction st rule: drain.induct)
  case (1 st)
  show ?case
  proof (cases "fmlookup (rcv_buffer st) (rcv_base st)")
    case None
    then show ?thesis by (simp add: drain_idle)
  next
    case (Some p)
    let ?st = "st\<lparr>app_data := app_data st @ [p],
                    rcv_buffer := fmdrop (rcv_base st) (rcv_buffer st),
                    rcv_base := rcv_base st + 1\<rparr>"
    from "1.IH" [OF Some]
    have a: "take (Suc (length (app_data st))) (app_data (drain ?st)) = app_data st @ [p]"
      and b: "Suc (length (app_data st)) \<le> length (app_data (drain ?st))"
      by simp_all
    have "take (length (app_data st)) (take (Suc (length (app_data st))) (app_data (drain ?st)))
          = app_data st"
      unfolding a by simp
    then have "take (length (app_data st)) (app_data (drain ?st)) = app_data st"
      by (simp add: min_def)
    with b show ?thesis
      by (simp add: drain_step [OF Some])
  qed
qed

lemma reassemble_rcv_base_le: "rcv_base st \<le> rcv_base (reassemble q p st)"
  using drain_rcv_base_le [of "st\<lparr>rcv_buffer := fmupd q p (rcv_buffer st)\<rparr>"]
  by (simp add: reassemble_def)

lemma reassemble_mss: "mss (reassemble q p st) = mss st"
  by (simp add: reassemble_def drain_mss)

lemma adapt_rcv_base: "rcv_base (adapt cfg st) = rcv_base st"
  by (simp add: adapt_def)

lemma ack_of_send_ack: "ack_of (Send (send_ack cfg st)) = Some (rcv_base st - 1)"
  by (simp add: send_ack_def dict_get_def dict_get_default_def lit_eq_iff)

lemma acks_append: "acks (xs @ ys) = acks xs @ acks ys"
  by (induction xs) (simp_all split: option.splits)

lemma handle_data_acks:
  assumes "handle_data cfg seq payload st = (s, st', out)"
  shows "rcv_base st \<le> rcv_base st' \<and> (acks out = [] \<or> acks out = [rcv_base st' - 1])"
  using assms reassemble_rcv_base_le [of st]
  by (auto simp: handle_data_def ack_of_send_ack adapt_rcv_base Let_def
      split: option.splits if_splits pyval.splits)

lemma handle_segment_acks:
  assumes "handle_segment cfg seg st = (s, st', out)"
  shows "rcv_base st \<le> rcv_base st' \<and> (acks out = [] \<or> acks out = [rcv_base st' - 1])"
proof (cases "\<exists>d. seg = PDict d \<and> truthy seg \<and> dict_get d (lit ''type'') = PStr (lit ''DATA'')")
  case True
  then obtain d where "seg = PDict d" "truthy seg" "dict_get d (lit ''type'') = PStr (lit ''DATA'')"
    by blast
  with assms have "handle_data cfg (dict_get d (lit ''seq''))
     (dict_get_default d (lit ''payload'') (PStr [])) st = (s, st', out)"
    by (simp add: handle_segment_def lit_eq_iff)
  then show ?thesis by (rule handle_data_acks)
next
  case False
  with assms show ?thesis
    by (auto simp: handle_segment_def dict_get_def dict_get_default_def
        lit_eq_iff Let_def split: if_splits pyval.splits)
qed

lemma transfer_loop_acks:
  "transfer_loop cfg segs st = (s, st', out) \<Longrightarrow>
   rcv_base st \<le> rcv_base st' \<and> sorted (acks out) \<and> (\<forall>a \<in> set (acks out). rcv_base st - 1 \<le> a)"
proof (induction segs arbitrary: st s st' out)
  case Nil
  then show ?case by simp
next
  case (Cons seg segs)
  obtain s1 st1 out1 where h: "handle_segment cfg seg st = (s1, st1, out1)"
    by (cases "handle_segment cfg seg st") auto
  note a = handle_segment_acks [OF h]
  show ?case
  proof (cases "s1 = Continue")
    case False
    with Cons.prems h have "s = s1" "st' = st1" "out = out1"
      by (cases s1; simp)+
    with a show ?thesis by auto
  next
    case True
    obtain s2 st2 out2 where t: "transfer_loop cfg segs st1 = (s2, st2, out2)"
      by (cases "transfer_loop cfg segs st1") auto
    from Cons.prems h t True have e: "s = s2" "st' = st2" "out = out1 @ out2"
      by simp_all
    from Cons.IH [OF t] a show ?thesis
      unfolding e by (auto simp: acks_append sorted_append)
  qed
qed

lemma drain_agrees: "agrees segs st \<Longrightarrow> agrees segs (drain st)"
proof (induction st rule: drain.induct)
  case (1 st)
  show ?case
  proof (cases "fmlookup (rcv_buffer st) (rcv_base st)")
    case None
    with "1.prems" show ?thesis by (simp add: drain_idle)
  next
    case (Some p)
    let ?st = "st\<lparr>app_data := app_data st @ [p],
                    rcv_buffer := fmdrop (rcv_base st) (rcv_buffer st),
                    rcv_base := rcv_base st + 1\<rparr>"
    from "1.prems" Some have b: "0 \<le> rcv_base st" "rcv_base st < int (length segs)"
      "p = segs ! nat (rcv_base st)" "app_data st = take (nat (rcv_base st)) segs"
      by (auto simp: agrees_def)
    have "nat (rcv_base st + 1) = Suc (nat (rcv_base st))"
      using b(1) by simp
    moreover have "nat (rcv_base st) < length segs"
      using b(1,2) by simp
    ultimately have "take (nat (rcv_base st + 1)) segs = take (nat (rcv_base st)) segs @ [p]"
      using b(3) by (simp add: take_Suc_conv_app_nth)
    moreover have "rcv_base st + 1 \<le> q \<and> q < int (length segs) \<and> p' = segs ! nat q"
      if "fmlookup (rcv_buffer ?st) q = Some p'" for q p'
    proof -
      from that have "q \<noteq> rcv_base st" and "fmlookup (rcv_buffer st) q = Some p'"
        by (auto split: if_splits)
      with "1.prems" show ?thesis
        by (fastforce simp: agrees_def)
    qed
    ultimately have "agrees segs ?st"
      using b by (simp add: agrees_def)
    from "1.IH" [OF Some this] show ?thesis
      by (simp add: drain_step [OF Some])
  qed
qed

lemma drain_covered: "0 \<le> rcv_base st \<Longrightarrow> covered (drain st) = covered st"
proof (induction st rule: drain.induct)
  case (1 st)
  show ?case
  proof (cases "fmlookup (rcv_buffer st) (rcv_base st)")
    case None
    then show ?thesis by (simp add: drain_idle)
  next
    case (Some p)
    let ?st = "st\<lparr>app_data := app_data st @ [p],
                    rcv_buffer := fmdrop (rcv_base st) (rcv_buffer st),
                    rcv_base := rcv_base st + 1\<rparr>"
    from "1.prems" have "0 \<le> rcv_base ?st" by simp
    from "1.IH" [OF Some this] have "covered (drain st) = covered ?st"
      by (simp add: drain_step [OF Some])
    also have "\<dots> = covered st"
      using fmdom'I [OF Some] "1.prems" by (auto simp: covered_def)
    finally show ?thesis .
  qed
qed

lemma reassemble_agrees:
  assumes "agrees segs st" and "0 \<le> q" and "q < int (length segs)" and "p = segs ! nat q"
  shows "agrees segs (reassemble q p st)"
proof (cases "rcv_base st \<le> q")
  case True
  from assms True have "agrees segs (st\<lparr>rcv_buffer := fmupd q p (rcv_buffer st)\<rparr>)"
    by (auto simp: agrees_def)
  then show ?thesis
    using True by (simp add: reassemble_def drain_agrees)
next
  case False
  with assms(1) show ?thesis by (simp add: reassemble_def)
qed

lemma reassemble_covered:
  assumes "0 \<le> rcv_base st" and "0 \<le> q"
  shows "covered (reassemble q p st) = insert q (covered st)"
proof (cases "rcv_base st \<le> q")
  case True
  have "covered (drain (st\<lparr>rcv_buffer := fmupd q p (rcv_buffer st)\<rparr>))
        = covered (st\<lparr>rcv_buffer := fmupd q p (rcv_buffer st)\<rparr>)"
    using assms(1) by (intro drain_covered) simp
  then show ?thesis
    using True by (simp add: reassemble_def covered_def)
next
  case False
  with assms show ?thesis by (auto simp: reassemble_def covered_def)
qed

lemma reassemble_head_absent:
  "fmlookup (rcv_buffer st) (rcv_base st) = None \<Longrightarrow>
   fmlookup (rcv_buffer (reassemble q p st)) (rcv_base (reassemble q p st)) = None"
  by (simp add: reassemble_def drain_head_absent)

lemma receive_all_invariant:
  assumes "agrees segs st"
    and "fmlookup (rcv_buffer st) (rcv_base st) = None"
    and "\<forall>(q, p) \<in> set arrivals. 0 \<le> q \<and> q < int (length segs) \<and> p = segs ! nat q"
  shows "agrees segs (receive_all arrivals st)
         \<and> fmlookup (rcv_buffer (receive_all arrivals st)) (rcv_base (receive_all arrivals st)) = None
         \<and> covered (receive_all arrivals st) = fst ` set arrivals \<union> covered st"
  using assms
proof (induction arrivals arbitrary: st)
  case Nil
  then show ?case by simp
next
  case (Cons a arrivals)
  obtain q p where a: "a = (q, p)" by (cases a)
  from Cons.prems(3) a have qp: "0 \<le> q" "q < int (length segs)" "p = segs ! nat q"
    by auto
  have 1: "agrees segs (reassemble q p st)"
    using Cons.prems(1) qp by (rule reassemble_agrees)
  have 2: "fmlookup (rcv_buffer (reassemble q p st)) (rcv_base (reassemble q p st)) = None"
    using Cons.prems(2) by (rule reassemble_head_absent)
  have 3: "\<forall>(q, p) \<in> set arrivals. 0 \<le> q \<and> q < int (length segs) \<and> p = segs ! nat q"
    using Cons.prems(3) by simp
  have "0 \<le> rcv_base st"
    using Cons.prems(1) by (simp add: agrees_def)
  then have 4: "covered (reassemble q p st) = insert q (covered st)"
    using qp(1) by (rule reassemble_covered)
  from Cons.IH [OF 1 2 3] show ?case
    by (simp add: a 4)
qed

lemma initial_agrees: "agrees segs (initial_receiver cfg)"
  by (simp add: agrees_def initial_receiver_def)

lemma adapt_agrees: "agrees segs (adapt cfg st) \<longleftrightarrow> agrees segs st"
  by (simp add: adapt_def agrees_def)

lemma handle_segment_data_msg:
  assumes "handle_segment cfg (data_msg q p) st = (s, st', out)"
  shows "st' = st \<or> st' = adapt cfg (reassemble q p st)"
  using assms
  by (auto simp: handle_segment_def handle_data_def data_msg_def dict_get_def
      dict_get_default_def lit_eq_iff Let_def split: if_splits option.splits)

lemma transfer_loop_agrees:
  assumes "agrees segs st"
    and "\<forall>m \<in> set msgs. \<exists>q. 0 \<le> q \<and> q < int (length segs) \<and> m = data_msg q (segs ! nat q)"
    and "transfer_loop cfg msgs st = (s, st', out)"
  shows "agrees segs st'"
  using assms
proof (induction msgs arbitrary: st s out)
  case Nil
  then show ?case by simp
next
  case (Cons m msgs)
  from Cons.prems(2) obtain q where q: "0 \<le> q" "q < int (length segs)"
    and m: "m = data_msg q (segs ! nat q)"
    by auto
  obtain s1 st1 out1 where h: "handle_segment cfg m st = (s1, st1, out1)"
    by (cases "handle_segment cfg m st") auto
  from handle_segment_data_msg [OF h [unfolded m]] Cons.prems(1) q
  have a: "agrees segs st1"
    by (auto simp: adapt_agrees reassemble_agrees)
  show ?case
  proof (cases "s1 = Continue")
    case False
    with Cons.prems(3) h have "st' = st1"
      by (cases s1; simp)
    with a show ?thesis by simp
  next
    case True
    obtain s2 st2 out2 where t: "transfer_loop cfg msgs st1 = (s2, st2, out2)"
      by (cases "transfer_loop cfg msgs st1") auto
    from Cons.prems(3) h t True have "st' = st2"
      by simp
    with t have t': "transfer_loop cfg msgs st1 = (s2, st', out2)"
      by simp
    have "\<forall>m \<in> set msgs. \<exists>q. 0 \<le> q \<and> q < int (length segs) \<and> m = data_msg q (segs ! nat q)"
      using Cons.prems(2) by simp
    with a show ?thesis
      using t' by (rule Cons.IH)
  qed
qed

lemma transfer_loop_delivers_source:
  assumes "\<forall>m \<in> set msgs. \<exists>q. 0 \<le> q \<and> q < int (length segs) \<and> m = data_msg q (segs ! nat q)"
    and "transfer_loop cfg msgs (initial_receiver cfg) = (s, st', out)"
  shows "app_data st' = take (nat (rcv_base st')) segs"
  using transfer_loop_agrees [OF initial_agrees assms] by (simp add: agrees_def)

section \<open>Sender: lemmas\<close>

lemma data_msg_inject: "data_msg q p = data_msg q' p' \<longleftrightarrow> q = q' \<and> p = p'"
  by (auto simp: data_msg_def)

lemma send_segment_fields:
  "base (snd (send_segment c now m s)) = base s"
  "next_seq_num (snd (send_segment c now m s)) = next_seq_num s + 1"
  "mms (snd (send_segment c now m s)) = mms s"
  "sent_packets_buffer (snd (send_segment c now m s))
     = fmupd (next_seq_num s) (py_slice (file_data c) (file_cursor s) (file_cursor s + m))
         (sent_packets_buffer s)"
  "fst (send_segment c now m s)
     = data_msg (next_seq_num s) (py_slice (file_data c) (file_cursor s) (file_cursor s + m))"
  by (simp_all add: send_segment_def Let_def)

lemma send_segment_inv:
  assumes "sender_inv tr s"
  shows "sender_inv (tr @ [fst (send_segment c now m s)]) (snd (send_segment c now m s))"
proof -
  let ?n = "next_seq_num s"
  let ?p = "py_slice (file_data c) (file_cursor s) (file_cursor s + m)"
  from assms have d: "fmdom' (sent_packets_buffer s) = {0..<?n}"
    and t: "\<And>q p. data_msg q p \<in> set tr \<longleftrightarrow> fmlookup (sent_packets_buffer s) q = Some p"
    and b: "0 \<le> num_val (base s)" and n: "0 \<le> ?n"
    and e: "\<forall>e \<in> set tr. \<exists>q p. e = data_msg q p"
    by (simp_all add: sender_inv_def)
  have "?n \<notin> fmdom' (sent_packets_buffer s)"
    using d by simp
  then have fresh: "fmlookup (sent_packets_buffer s) ?n = None"
    by (rule fmdom'_notD)
  have 1: "fmdom' (fmupd ?n ?p (sent_packets_buffer s)) = {0..<?n + 1}"
    using d n by auto
  have 2: "data_msg q p \<in> set (tr @ [data_msg ?n ?p])
           \<longleftrightarrow> fmlookup (fmupd ?n ?p (sent_packets_buffer s)) q = Some p" for q p
    using t [of q p] fresh by (auto simp: data_msg_inject)
  have 3: "\<forall>e \<in> set (tr @ [data_msg ?n ?p]). \<exists>q p. e = data_msg q p"
    using e by auto
  show ?thesis
    unfolding sender_inv_def send_segment_fields
    using 1 2 3 b n by simp
qed

lemma fill_cases:
  assumes "fill c now s = (e, out, s')"
  obtains (stop) "out = []" and "s' = s"
  | (step) m out1 where "int_of (mms s) = Some m"
      and "fill c now (snd (send_segment c now m s)) = (e, out1, s')"
      and "out = fst (send_segment c now m s) # out1"
      and "\<And>b. base s = NInt b \<Longrightarrow> next_seq_num s < b + window_size c"
proof (cases "add_int c (base s) (window_size c)")
  case (Inl err)
  with assms have "out = []" "s' = s"
    by (simp_all add: fill.simps [of c now s])
  then show ?thesis by (rule stop)
next
  case (Inr limit)
  show ?thesis
  proof (cases "of_int (next_seq_num s) < num_val limit
                \<and> file_cursor s < int (length (file_data c))")
    case False
    with assms Inr have "out = []" "s' = s"
      by (auto simp: fill.simps [of c now s])
    then show ?thesis by (rule stop)
  next
    case True
    show ?thesis
    proof (cases "int_of (mms s)")
      case None
      with assms Inr True have "out = []" "s' = s"
        by (simp_all add: fill.simps [of c now s])
      then show ?thesis by (rule stop)
    next
      case (Some m)
      obtain e1 out1 s1 where r: "fill c now (snd (send_segment c now m s)) = (e1, out1, s1)"
        by (cases "fill c now (snd (send_segment c now m s))") auto
      from assms Inr True Some r have "e1 = e" "s1 = s'"
        and o: "out = fst (send_segment c now m s) # out1"
        by (simp_all add: fill.simps [of c now s])
      with r have r': "fill c now (snd (send_segment c now m s)) = (e, out1, s')"
        by simp
      have "next_seq_num s < b + window_size c" if "base s = NInt b" for b
        using that Inr True by auto
      with Some r' o show ?thesis by (rule step)
    qed
  qed
qed

lemma fill_inv: "sender_inv tr s \<Longrightarrow> fill c now s = (e, out, s') \<Longrightarrow> sender_inv (tr @ out) s'"
proof (induction c now s arbitrary: tr out rule: fill.induct)
  case (1 c now s)
  from "1.prems"(2) show ?case
  proof (cases rule: fill_cases)
    case stop
    with "1.prems"(1) show ?thesis by simp
  next
    case (step m out1)
    obtain limit where l: "add_int c (base s) (window_size c) = Inr limit"
      and w: "of_int (next_seq_num s) < num_val limit
              \<and> file_cursor s < int (length (file_data c))"
      using "1.prems"(2) step(1,3)
      by (cases "add_int c (base s) (window_size c)")
         (auto simp: fill.simps [of c now s] split: if_splits)
    from "1.IH" [OF l w step(1) send_segment_inv [OF "1.prems"(1)] step(2)] show ?thesis
      by (simp add: step(3))
  qed
qed

lemma fill_window:
  "fill c now s = (e, out, s') \<Longrightarrow>
   base s' = base s \<and> mms s' = mms s \<and> next_seq_num s \<le> next_seq_num s'
   \<and> (\<forall>b. base s = NInt b \<longrightarrow> next_seq_num s \<le> b + window_size c
         \<longrightarrow> next_seq_num s' \<le> b + window_size c)"
proof (induction c now s arbitrary: out rule: fill.induct)
  case (1 c now s)
  from "1.prems" show ?case
  proof (cases rule: fill_cases)
    case stop
    then show ?thesis by simp
  next
    case (step m out1)
    obtain limit where l: "add_int c (base s) (window_size c) = Inr limit"
      and w: "of_int (next_seq_num s) < num_val limit
              \<and> file_cursor s < int (length (file_data c))"
      using "1.prems" step(1,3)
      by (cases "add_int c (base s) (window_size c)")
         (auto simp: fill.simps [of c now s] split: if_splits)
    from "1.IH" [OF l w step(1) step(2)] step(4) show ?thesis
      by (auto simp: send_segment_fields)
  qed
qed

lemma accept_ack_fields:
  "next_seq_num (accept_ack c now d n s) = next_seq_num s"
  "sent_packets_buffer (accept_ack c now d n s) = sent_packets_buffer s"
  "file_cursor (accept_ack c now d n s) = file_cursor s"
  by (simp_all add: accept_ack_def Let_def split: sum.splits option.splits)

lemma accept_ack_int:
  "accept_ack c now d (NInt a) s
   = (let s2 = s\<lparr>base := NInt (a + 1),
                  timer_start := if a + 1 < next_seq_num s then Some now else None\<rparr>
      in if is_dynamic c then
           (case map_of d (lit ''maximum message size'') of None \<Rightarrow> s2 | Some v \<Rightarrow> s2\<lparr>mms := v\<rparr>)
         else s2)"
  by (simp add: accept_ack_def Let_def)

lemma accept_ack_base:
  "base (accept_ack c now d n s) = base s \<or> add_int c n 1 = Inr (base (accept_ack c now d n s))"
  by (simp add: accept_ack_def Let_def split: sum.splits option.splits)

lemma process_ack_cases:
  obtains (same) "process_ack c now v s = s"
  | (accepted) d n where "v = PDict d" and "dict_get d (lit ''type'') = PStr (lit ''ACK'')"
      and "num_of (dict_get d (lit ''ack'')) = Some n" and "num_val (base s) \<le> num_val n"
      and "process_ack c now v s = accept_ack c now d n s"
proof (cases "\<exists>d n. v = PDict d \<and> d \<noteq> [] \<and> dict_get d (lit ''type'') = PStr (lit ''ACK'')
                \<and> num_of (dict_get d (lit ''ack'')) = Some n \<and> num_val (base s) \<le> num_val n")
  case True
  then obtain d n where h: "v = PDict d" "d \<noteq> []" "dict_get d (lit ''type'') = PStr (lit ''ACK'')"
    "num_of (dict_get d (lit ''ack'')) = Some n" "num_val (base s) \<le> num_val n"
    by blast
  then have "process_ack c now v s = accept_ack c now d n s"
    by (simp add: process_ack_def)
  with h show ?thesis by (intro accepted)
next
  case False
  then have "process_ack c now v s = s"
    by (cases v) (auto simp: process_ack_def split: option.splits)
  then show ?thesis by (rule same)
qed

lemma process_ack_fields:
  "next_seq_num (process_ack c now v s) = next_seq_num s"
  "sent_packets_buffer (process_ack c now v s) = sent_packets_buffer s"
  "file_cursor (process_ack c now v s) = file_cursor s"
  by (cases rule: process_ack_cases [of c now v s]; simp add: accept_ack_fields)+

lemma poll_fields:
  "next_seq_num (poll c now inp s) = next_seq_num s"
  "sent_packets_buffer (poll c now inp s) = sent_packets_buffer s"
  "file_cursor (poll c now inp s) = file_cursor s"
  by (simp_all add: poll_def process_ack_fields split: option.splits)

lemma add_int_nonneg:
  assumes "float_add_sane c" and "0 \<le> num_val n" and "0 \<le> k" and "add_int c n k = Inr b"
  shows "0 \<le> num_val b"
proof (cases n)
  case (NInt a)
  with assms show ?thesis by auto
next
  case (NFloat x)
  with assms(4) obtain y where "float_add_int c x k = Some y" "b = NFloat y"
    by (auto split: option.splits)
  with assms(1,2,3) NFloat show ?thesis
    by (auto simp: float_add_sane_def)
qed

lemma process_ack_base_nonneg:
  assumes "float_add_sane c" and "0 \<le> num_val (base s)"
  shows "0 \<le> num_val (base (process_ack c now v s))"
proof (cases rule: process_ack_cases [of c now v s])
  case same
  with assms(2) show ?thesis by simp
next
  case (accepted d n)
  from assms(2) accepted(4) have n: "0 \<le> num_val n" by simp
  from accept_ack_base [of c now d n s] show ?thesis
  proof
    assume "base (accept_ack c now d n s) = base s"
    with assms(2) accepted(5) show ?thesis by simp
  next
    assume "add_int c n 1 = Inr (base (accept_ack c now d n s))"
    from add_int_nonneg [OF assms(1) n _ this] accepted(5) show ?thesis by simp
  qed
qed

lemma poll_inv:
  assumes "sender_inv tr s" and "float_add_sane c"
  shows "sender_inv tr (poll c now inp s)"
proof -
  from assms(1) have "0 \<le> num_val (base s)"
    by (simp add: sender_inv_def)
  then have "0 \<le> num_val (base (poll c now inp s))"
    using process_ack_base_nonneg [OF assms(2)] by (simp add: poll_def split: option.splits)
  with assms(1) show ?thesis
    by (simp add: sender_inv_def poll_fields)
qed

lemma process_ack_integral:
  assumes "ack_integral (Some v)" and "base s = NInt b"
  shows "\<exists>b'. base (process_ack c now v s) = NInt b' \<and> b \<le> b'
           \<and> (ack_in_flight s (Some v) \<longrightarrow> b \<le> next_seq_num s \<longrightarrow> b' \<le> next_seq_num s)"
proof (cases rule: process_ack_cases [of c now v s])
  case same
  with assms(2) show ?thesis by simp
next
  case (accepted d n)
  from assms(1) accepted(1,3) obtain a where n: "n = NInt a"
    and a: "int_of (dict_get d (lit ''ack'')) = Some a"
    by (cases "dict_get d (lit ''ack'')") (auto simp: ack_integral_def split: if_splits)
  have "base (accept_ack c now d (NInt a) s) = NInt (a + 1)"
    by (simp add: accept_ack_int Let_def split: option.splits)
  moreover have "b \<le> a"
    using accepted(4) n assms(2) by simp
  moreover have "a < next_seq_num s" if "ack_in_flight s (Some v)"
    using that accepted(1) a by (simp add: ack_in_flight_def)
  ultimately show ?thesis
    using accepted(5) n by auto
qed

lemma poll_integral:
  assumes "ack_integral inp" and "base s = NInt b"
  shows "\<exists>b'. base (poll c now inp s) = NInt b' \<and> b \<le> b'
           \<and> (ack_in_flight s inp \<longrightarrow> b \<le> next_seq_num s \<longrightarrow> b' \<le> next_seq_num s)"
proof (cases inp)
  case None
  with assms(2) show ?thesis by (simp add: poll_def)
next
  case (Some v)
  with process_ack_integral [of v s b c now] assms show ?thesis
    by (simp add: poll_def)
qed


lemma resend_events:
  "e \<in> set (resend buf qs) \<Longrightarrow> \<exists>q p. e = data_msg q p \<and> fmlookup buf q = Some p"
  by (induction qs) (auto split: option.splits)

lemma check_timeout_cases:
  assumes "check_timeout c now now' s = (e, out, s')"
  obtains (idle) "out = []" and "s' = s"
  | (raised) "out = []" and "s' = s\<lparr>timer_start := Some now'\<rparr>"
  | (resent) b where "base s = NInt b" and "timer_expired c now s"
      and "out = resend (sent_packets_buffer s) [b..next_seq_num s - 1]"
      and "s' = s\<lparr>timer_start := Some now'\<rparr>" and "e = None"
  using assms by (auto simp: check_timeout_def split: if_splits pynum.splits)

lemma check_timeout_inv:
  assumes "sender_inv tr s" and "check_timeout c now now' s = (e, out, s')"
  shows "sender_inv (tr @ out) s'"
  using assms(2)
proof (cases rule: check_timeout_cases)
  case idle
  with assms(1) show ?thesis by simp
next
  case raised
  with assms(1) show ?thesis by (simp add: sender_inv_def)
next
  case (resent b)
  have "\<exists>q p. e = data_msg q p \<and> fmlookup (sent_packets_buffer s) q = Some p"
    if "e \<in> set out" for e
    using that unfolding resent(3) by (rule resend_events)
  then have "\<forall>e \<in> set out. \<exists>q p. e = data_msg q p"
    and "\<And>q p. data_msg q p \<in> set out \<Longrightarrow> fmlookup (sent_packets_buffer s) q = Some p"
    by (blast, metis data_msg_inject)
  with assms(1) show ?thesis
    unfolding sender_inv_def resent(4) by auto
qed

lemma check_timeout_window:
  "check_timeout c now now' s = (e, out, s') \<Longrightarrow>
   base s' = base s \<and> next_seq_num s' = next_seq_num s"
  by (auto simp: check_timeout_def split: if_splits pynum.splits)

lemma initial_sender_inv: "sender_inv [] (initial_sender m)"
  by (simp add: sender_inv_def initial_sender_def)

lemma reachable_inv: "reachable ok c tr s \<Longrightarrow> float_add_sane c \<Longrightarrow> sender_inv tr s"
proof (induction rule: reachable.induct)
  case (start m)
  show ?case by (rule initial_sender_inv)
next
  case (filled tr s now out s')
  then show ?case by (simp add: fill_inv)
next
  case (polled tr s inp now)
  then show ?case by (simp add: poll_inv)
next
  case (checked tr s now now' out s')
  then show ?case by (simp add: check_timeout_inv)
qed

lemma reachable_window:
  assumes "reachable ok c tr s" and "\<forall>s' inp. ok s' inp \<longrightarrow> ack_integral inp"
  shows "\<exists>b. base s = NInt b
           \<and> (0 \<le> window_size c \<longrightarrow> next_seq_num s \<le> b + window_size c)
           \<and> ((\<forall>s' inp. ok s' inp \<longrightarrow> ack_in_flight s' inp) \<longrightarrow> b \<le> next_seq_num s)"
  using assms(1)
proof (induction rule: reachable.induct)
  case (start m)
  show ?case by (simp add: initial_sender_def)
next
  case (filled tr s now out s')
  with fill_window [OF filled.hyps(2)] show ?case by auto
next
  case (polled tr s inp now)
  then obtain b where b: "base s = NInt b"
    and u: "0 \<le> window_size c \<longrightarrow> next_seq_num s \<le> b + window_size c"
    and l: "(\<forall>s' inp. ok s' inp \<longrightarrow> ack_in_flight s' inp) \<longrightarrow> b \<le> next_seq_num s"
    by blast
  have "ack_integral inp"
    using assms(2) polled.hyps(2) by blast
  from poll_integral [OF this b, of c now]
  obtain b' where b': "base (poll c now inp s) = NInt b'" "b \<le> b'"
    "ack_in_flight s inp \<longrightarrow> b \<le> next_seq_num s \<longrightarrow> b' \<le> next_seq_num s"
    by blast
  with u l polled.hyps(2) show ?case
    by (auto simp: poll_fields)
next
  case (checked tr s now now' out s')
  with check_timeout_window [OF checked.hyps(2)] show ?case by simp
qed

lemma iteration_step_reachable:
  assumes "reachable ok c tr s"
    and "ok (snd (snd (fill c (t_fill clk) s))) inp"
    and "iteration c clk inp s = (None, out, s')"
  shows "reachable ok c (tr @ out) s'"
proof -
  obtain e1 out1 s1 where f: "fill c (t_fill clk) s = (e1, out1, s1)"
    by (cases "fill c (t_fill clk) s") auto
  with assms(3) have e1: "e1 = None"
    by (cases e1) (simp_all add: iteration_def)
  obtain e2 out2 s3 where k:
    "check_timeout c (t_check clk) (t_rearm clk) (poll c (t_ack clk) inp s1) = (e2, out2, s3)"
    by (cases "check_timeout c (t_check clk) (t_rearm clk) (poll c (t_ack clk) inp s1)") auto
  from assms(3) f e1 k have e: "e2 = None" "out = out1 @ out2" "s' = s3"
    by (simp_all add: iteration_def)
  have "reachable ok c (tr @ out1) s1"
    using assms(1) f [unfolded e1] by (rule reachable.filled)
  moreover have "ok s1 inp"
    using assms(2) f by simp
  ultimately have "reachable ok c (tr @ out1) (poll c (t_ack clk) inp s1)"
    by (rule reachable.polled)
  then have "reachable ok c ((tr @ out1) @ out2) s3"
    using k [unfolded e(1)] by (rule reachable.checked)
  then show ?thesis
    by (simp add: e)
qed

lemma sender_loop_reachable:
  "reachable any_input c tr s \<Longrightarrow> sender_loop c ins s = (None, out, s')
   \<Longrightarrow> reachable any_input c (tr @ out) s'"
proof (induction ins arbitrary: tr s out)
  case Nil
  then show ?case by simp
next
  case (Cons i ins)
  obtain clk inp where i: "i = (clk, inp)" by (cases i)
  show ?case
  proof (cases "file_cursor s < int (length (file_data c))
                \<or> num_val (base s) < of_int (next_seq_num s)")
    case False
    with Cons.prems i show ?thesis by simp
  next
    case True
    obtain e1 out1 s1 where it: "iteration c clk inp s = (e1, out1, s1)"
      by (cases "iteration c clk inp s") auto
    with Cons.prems(2) i True have e1: "e1 = None"
      by (cases e1) simp_all
    obtain e2 out2 s2 where t: "sender_loop c ins s1 = (e2, out2, s2)"
      by (cases "sender_loop c ins s1") auto
    from Cons.prems(2) i True it e1 t have e: "e2 = None" "out = out1 @ out2" "s' = s2"
      by simp_all
    have "reachable any_input c (tr @ out1) s1"
      using Cons.prems(1) _ it [unfolded e1]
      by (rule iteration_step_reachable) (simp add: any_input_def)
    from Cons.IH [OF this t [unfolded e(1) e(3) [symmetric]]] show ?thesis
      by (simp add: e)
  qed
qed

text \<open>Scenario A of the specification: window 2, segment size 10, source \<open>HELLO WORLD\<close>.\<close>

lemma exact_add_sane:
  "float_add_sane \<lparr>file_data = fd, window_size = w, timeout = t, is_dynamic = dyn,
     float_add_int = exact_add_int, float_sub = exact_sub\<rparr>"
  by (simp add: float_add_sane_def exact_add_int_def)

lemma fill_hello_world:
  "fill \<lparr>file_data = lit ''HELLO WORLD'', window_size = 2, timeout = 5, is_dynamic = dyn,
          float_add_int = exact_add_int, float_sub = exact_sub\<rparr>
     100 (initial_sender (PInt 10))
   = (None, [data_msg 0 (lit ''HELLO WORL''), data_msg 1 (lit ''D'')],
      \<lparr>file_cursor = 11,
       sent_packets_buffer = fmupd 1 (lit ''D'') (fmupd 0 (lit ''HELLO WORL'') fmempty),
       base = NInt 0, next_seq_num = 2, timer_start = Some 100, mms = PInt 10\<rparr>)"
  by (simp add: fill.simps send_segment_def initial_sender_def py_slice_def slice_index_def
      Let_def lit_def)

lemma reachable_hello_world:
  "reachable ok \<lparr>file_data = lit ''HELLO WORLD'', window_size = 2, timeout = 5, is_dynamic = dyn,
          float_add_int = exact_add_int, float_sub = exact_sub\<rparr>
     [data_msg 0 (lit ''HELLO WORL''), data_msg 1 (lit ''D'')]
     \<lparr>file_cursor = 11,
      sent_packets_buffer = fmupd 1 (lit ''D'') (fmupd 0 (lit ''HELLO WORL'') fmempty),
      base = NInt 0, next_seq_num = 2, timer_start = Some 100, mms = PInt 10\<rparr>"
  using reachable.filled [OF reachable.start fill_hello_world, of ok] by simp

lemma poll_hello_world:
  "poll \<lparr>file_data = lit ''HELLO WORLD'', window_size = 2, timeout = 5, is_dynamic = False,
          float_add_int = exact_add_int, float_sub = exact_sub\<rparr>
     101 (Some (PDict [(lit ''type'', PStr (lit ''ACK'')), (lit ''ack'', PInt a)]))
     \<lparr>file_cursor = 11,
      sent_packets_buffer = fmupd 1 (lit ''D'') (fmupd 0 (lit ''HELLO WORL'') fmempty),
      base = NInt 0, next_seq_num = 2, timer_start = Some 100, mms = PInt 10\<rparr>
   = (if 0 \<le> a then
        \<lparr>file_cursor = 11,
         sent_packets_buffer = fmupd 1 (lit ''D'') (fmupd 0 (lit ''HELLO WORL'') fmempty),
         base = NInt (a + 1), next_seq_num = 2,
         timer_start = (if a + 1 < 2 then Some 101 else None), mms = PInt 10\<rparr>
      else \<lparr>file_cursor = 11,
         sent_packets_buffer = fmupd 1 (lit ''D'') (fmupd 0 (lit ''HELLO WORL'') fmempty),
         base = NInt 0, next_seq_num = 2, timer_start = Some 100, mms = PInt 10\<rparr>)"
  by (simp add: poll_def process_ack_def accept_ack_def dict_get_def dict_get_default_def
      lit_eq_iff Let_def)

section \<open>Claims\<close>

text \<open>
  C1 (as amended).  Let every arrival be a segment of the source \<open>segs\<close>, in any order and
  with any duplication, each processed by the reassembly step from the initial state.
  At every point the delivered list is the first \<open>rcv_base\<close> segments of the source.  Once
  segments \<open>0..k\<close> have each been processed, \<open>rcv_base\<close> exceeds \<open>k\<close> and the delivered data
  begins with the first \<open>k + 1\<close> segments in original order; it equals their concatenation
  when segment \<open>k + 1\<close> has not been processed.
\<close>

theorem in_order_delivery:
  assumes src: "\<forall>(q, p) \<in> set arrivals. 0 \<le> q \<and> q < int (length segs) \<and> p = segs ! nat q"
  shows "app_data (receive_all arrivals (initial_receiver cfg))
           = take (nat (rcv_base (receive_all arrivals (initial_receiver cfg)))) segs
         \<and> (int ` {0..k} \<subseteq> fst ` set arrivals \<longrightarrow>
              int k < rcv_base (receive_all arrivals (initial_receiver cfg))
              \<and> take (Suc k) (app_data (receive_all arrivals (initial_receiver cfg)))
                  = take (Suc k) segs
              \<and> (int (Suc k) \<notin> fst ` set arrivals \<longrightarrow>
                   app_data (receive_all arrivals (initial_receiver cfg)) = take (Suc k) segs
                   \<and> concat (app_data (receive_all arrivals (initial_receiver cfg)))
                       = concat (take (Suc k) segs)))"
proof -
  let ?st = "receive_all arrivals (initial_receiver cfg)"
  have "fmlookup (rcv_buffer (initial_receiver cfg)) (rcv_base (initial_receiver cfg)) = None"
    by (simp add: initial_receiver_def)
  from receive_all_invariant [OF initial_agrees this src]
  have ag: "agrees segs ?st"
    and ha: "fmlookup (rcv_buffer ?st) (rcv_base ?st) = None"
    and co: "covered ?st = fst ` set arrivals"
    by (simp_all add: covered_def initial_receiver_def)
  from ag have d: "app_data ?st = take (nat (rcv_base ?st)) segs" and nn: "0 \<le> rcv_base ?st"
    by (simp_all add: agrees_def)
  have "int k < rcv_base ?st" if sub: "int ` {0..k} \<subseteq> fst ` set arrivals"
  proof (rule ccontr)
    assume "\<not> int k < rcv_base ?st"
    with nn have "rcv_base ?st \<in> int ` {0..k}"
      by (intro image_eqI [where x = "nat (rcv_base ?st)"]) auto
    with sub co have "rcv_base ?st \<in> covered ?st" by auto
    then have "rcv_base ?st \<in> fmdom' (rcv_buffer ?st)"
      by (simp add: covered_def)
    with ha show False by (simp add: fmlookup_dom'_iff)
  qed
  moreover have "rcv_base ?st \<le> int (Suc k)" if "int (Suc k) \<notin> fst ` set arrivals"
  proof (rule ccontr)
    assume "\<not> rcv_base ?st \<le> int (Suc k)"
    then have "int (Suc k) \<in> covered ?st"
      by (simp add: covered_def)
    with co that show False by simp
  qed
  ultimately have "int ` {0..k} \<subseteq> fst ` set arrivals \<Longrightarrow> Suc k \<le> nat (rcv_base ?st)"
    and "int ` {0..k} \<subseteq> fst ` set arrivals \<Longrightarrow> int (Suc k) \<notin> fst ` set arrivals
         \<Longrightarrow> nat (rcv_base ?st) = Suc k"
    by fastforce+
  then show ?thesis
    using d by (auto simp: min_def)
qed

theorem in_order_delivery_witness:
  "app_data (receive_all [(1, lit ''D''), (0, lit ''HELLO WORL''), (1, lit ''D'')]
     (initial_receiver \<lparr>maximum_message_size = 10, dynamic_message_size = False\<rparr>))
   = [lit ''HELLO WORL'', lit ''D'']"
proof -
  let ?arrivals = "[(1::int, lit ''D''), (0, lit ''HELLO WORL''), (1, lit ''D'')]"
  let ?segs = "[lit ''HELLO WORL'', lit ''D'']"
  have h: "\<forall>(q, p) \<in> set ?arrivals.
          0 \<le> q \<and> q < int (length ?segs) \<and> p = ?segs ! nat q"
    by simp
  have s: "int ` {0..1} \<subseteq> fst ` set ?arrivals"
    by (simp add: atLeastAtMost_upt)
  have n: "int (Suc 1) \<notin> fst ` set ?arrivals"
    by simp
  have "app_data (receive_all ?arrivals
          (initial_receiver \<lparr>maximum_message_size = 10, dynamic_message_size = False\<rparr>))
        = take (Suc 1) ?segs"
    using in_order_delivery [OF h, of "\<lparr>maximum_message_size = 10, dynamic_message_size = False\<rparr>" 1] s n
    by blast
  then show ?thesis by simp
qed

text \<open>
  C1 as stated fails: when segment 1 arrives before segment 0, segments \<open>0..0\<close> have been
  processed and the delivered data is both segments, not the first one alone.
\<close>

theorem in_order_delivery_counterexample:
  "int ` {0..0} \<subseteq> fst ` set [(1, lit ''b''), (0::int, lit ''a'')]
   \<and> concat (app_data (receive_all [(1, lit ''b''), (0, lit ''a'')]
        (initial_receiver \<lparr>maximum_message_size = 400, dynamic_message_size = False\<rparr>)))
     = lit ''ab''
   \<and> concat (take (Suc 0) [lit ''a'', lit ''b'']) = lit ''a''
   \<and> lit ''ab'' \<noteq> lit ''a''"
  by (simp add: initial_receiver_def reassemble_def drain.simps fmdrop_fmupd lit_def)

text \<open>
  C2 (as amended).  At every observation point of the sender loop, with a window size that
  is not negative, and as long as every acknowledgment processed carries an integer,
  \<open>base\<close> is an integer and \<open>next_seq_num \<le> base + window_size\<close>; and
  \<open>base \<le> next_seq_num\<close> as long as every acknowledgment processed also names a segment
  already sent (\<open>ack < next_seq_num\<close>).  The sender checks neither.
\<close>

theorem window_bound:
  assumes "reachable ok c tr s"
    and "0 \<le> window_size c"
    and "\<forall>s' inp. ok s' inp \<longrightarrow> ack_integral inp"
  shows "\<exists>b. base s = NInt b
           \<and> next_seq_num s \<le> b + window_size c
           \<and> ((\<forall>s' inp. ok s' inp \<longrightarrow> ack_in_flight s' inp) \<longrightarrow> b \<le> next_seq_num s)"
  using reachable_window [OF assms(1,3)] assms(2) by blast

theorem window_bound_witness:
  "base \<lparr>file_cursor = 11,
       sent_packets_buffer = fmupd 1 (lit ''D'') (fmupd 0 (lit ''HELLO WORL'') fmempty),
       base = NInt 1, next_seq_num = 2, timer_start = Some 101, mms = PInt 10\<rparr> = NInt 1
   \<and> next_seq_num \<lparr>file_cursor = 11,
       sent_packets_buffer = fmupd 1 (lit ''D'') (fmupd 0 (lit ''HELLO WORL'') fmempty),
       base = NInt 1, next_seq_num = 2, timer_start = Some 101, mms = PInt 10\<rparr>
     \<le> 1 + window_size \<lparr>file_data = lit ''HELLO WORLD'', window_size = 2, timeout = 5,
          is_dynamic = False, float_add_int = exact_add_int, float_sub = exact_sub\<rparr>
   \<and> 1 \<le> next_seq_num \<lparr>file_cursor = 11,
       sent_packets_buffer = fmupd 1 (lit ''D'') (fmupd 0 (lit ''HELLO WORL'') fmempty),
       base = NInt 1, next_seq_num = 2, timer_start = Some 101, mms = PInt 10\<rparr>"
proof -
  let ?c = "\<lparr>file_data = lit ''HELLO WORLD'', window_size = 2, timeout = 5,
          is_dynamic = False, float_add_int = exact_add_int, float_sub = exact_sub\<rparr>"
  let ?s1 = "\<lparr>file_cursor = 11,
       sent_packets_buffer = fmupd 1 (lit ''D'') (fmupd 0 (lit ''HELLO WORL'') fmempty),
       base = NInt 0, next_seq_num = 2, timer_start = Some 100, mms = PInt 10\<rparr>"
  let ?s2 = "\<lparr>file_cursor = 11,
       sent_packets_buffer = fmupd 1 (lit ''D'') (fmupd 0 (lit ''HELLO WORL'') fmempty),
       base = NInt 1, next_seq_num = 2, timer_start = Some 101, mms = PInt 10\<rparr>"
  let ?ack = "Some (PDict [(lit ''type'', PStr (lit ''ACK'')), (lit ''ack'', PInt 0)])"
  have ok: "honest_ack ?s1 ?ack"
    by (simp add: honest_ack_def ack_integral_def ack_in_flight_def dict_get_def
        dict_get_default_def lit_eq_iff)
  have p: "poll ?c 101 ?ack ?s1 = ?s2"
    by (simp add: poll_hello_world)
  have "reachable honest_ack ?c [data_msg 0 (lit ''HELLO WORL''), data_msg 1 (lit ''D'')]
          (poll ?c 101 ?ack ?s1)"
    using reachable_hello_world ok by (rule reachable.polled)
  then have r: "reachable honest_ack ?c [data_msg 0 (lit ''HELLO WORL''), data_msg 1 (lit ''D'')] ?s2"
    by (simp only: p)
  have w: "0 \<le> window_size ?c" by simp
  have i: "\<forall>s' inp. honest_ack s' inp \<longrightarrow> ack_integral inp"
    by (simp add: honest_ack_def)
  have f: "\<forall>s' inp. honest_ack s' inp \<longrightarrow> ack_in_flight s' inp"
    by (simp add: honest_ack_def)
  from window_bound [OF r w i] f show ?thesis
    by auto
qed

text \<open>
  C2 as stated fails.  After two segments are sent, an acknowledgment with \<open>ack = 5\<close> sets
  \<open>base\<close> to 6 while \<open>next_seq_num\<close> is 2.  And with window 2, an acknowledgment with
  \<open>ack = 0.5\<close> sets \<open>base\<close> to 1.5, after which the fill loop runs to \<open>next_seq_num = 4\<close>,
  above \<open>base + window_size = 3.5\<close>.
\<close>

theorem window_bound_counterexample:
  "iteration \<lparr>file_data = lit ''HELLO WORLD'', window_size = 2, timeout = 5, is_dynamic = False,
          float_add_int = exact_add_int, float_sub = exact_sub\<rparr>
     \<lparr>t_fill = 100, t_ack = 101, t_check = 102, t_rearm = 103\<rparr>
     (Some (PDict [(lit ''type'', PStr (lit ''ACK'')), (lit ''ack'', PInt 5)]))
     (initial_sender (PInt 10))
   = (None, [data_msg 0 (lit ''HELLO WORL''), data_msg 1 (lit ''D'')],
      \<lparr>file_cursor = 11,
       sent_packets_buffer = fmupd 1 (lit ''D'') (fmupd 0 (lit ''HELLO WORL'') fmempty),
       base = NInt 6, next_seq_num = 2, timer_start = None, mms = PInt 10\<rparr>)
   \<and> \<not> (0 \<le> (2::int) - 6)
   \<and> sender_loop \<lparr>file_data = lit ''HELLO WORLD'', window_size = 2, timeout = 5,
          is_dynamic = False, float_add_int = exact_add_int, float_sub = exact_sub\<rparr>
       [(\<lparr>t_fill = 100, t_ack = 101, t_check = 102, t_rearm = 103\<rparr>,
         Some (PDict [(lit ''type'', PStr (lit ''ACK'')), (lit ''ack'', PFloat (1 / 2))])),
        (\<lparr>t_fill = 103, t_ack = 104, t_check = 105, t_rearm = 106\<rparr>, None)]
       (initial_sender (PInt 3))
   = (None,
      [data_msg 0 (lit ''HEL''), data_msg 1 (lit ''LO ''), data_msg 2 (lit ''WOR''),
       data_msg 3 (lit ''LD'')],
      \<lparr>file_cursor = 11,
       sent_packets_buffer =
         fmupd 3 (lit ''LD'') (fmupd 2 (lit ''WOR'')
           (fmupd 1 (lit ''LO '') (fmupd 0 (lit ''HEL'') fmempty))),
       base = NFloat (3 / 2), next_seq_num = 4, timer_start = Some 101, mms = PInt 3\<rparr>)
   \<and> \<not> (real_of_int 4 - 3 / 2 \<le> real_of_int 2)"
  by (simp add: iteration_def fill_hello_world poll_hello_world check_timeout_def
      timer_expired_def exact_sub_def exact_add_int_def
      fill.simps send_segment_def initial_sender_def py_slice_def slice_index_def
      poll_def process_ack_def accept_ack_def dict_get_def dict_get_default_def
      lit_eq_iff Let_def lit_def)

text \<open>
  C3 (as amended).  Whenever the sender processes a cumulative acknowledgment with
  \<open>ack \<ge> base\<close>, it sets \<open>base\<close> to \<open>ack + 1\<close> (for an integer \<open>ack\<close>: rearming the timer if
  \<open>base < next_seq_num\<close> and disarming it otherwise, and under the dynamic flag taking
  whatever \<^verbatim>\<open>maximum message size\<close> the message carries) and leaves the buffer of sent
  segments untouched.  Nothing is ever dropped: the keys of the buffer stay
  \<open>[0, next_seq_num)\<close>, which contains \<open>[base, next_seq_num)\<close> and differs from it as soon
  as one segment has been sent.
\<close>

theorem ack_advances_base_keeps_buffer:
  assumes "reachable ok c tr s"
    and "float_add_sane c"
    and "dict_get d (lit ''type'') = PStr (lit ''ACK'')"
    and "num_of (dict_get d (lit ''ack'')) = Some n"
    and "num_val (base s) \<le> num_val n"
    and "s' = poll c now (Some (PDict d)) s"
  shows "sent_packets_buffer s' = sent_packets_buffer s
         \<and> next_seq_num s' = next_seq_num s
         \<and> fmdom' (sent_packets_buffer s') = {0..<next_seq_num s'}
         \<and> (\<forall>a. n = NInt a \<longrightarrow>
               base s' = NInt (a + 1)
               \<and> timer_start s' = (if a + 1 < next_seq_num s' then Some now else None)
               \<and> mms s' = (if is_dynamic c
                            then (case map_of d (lit ''maximum message size'') of
                                    None \<Rightarrow> mms s | Some v \<Rightarrow> v)
                            else mms s)
               \<and> {a + 1..<next_seq_num s'} \<subseteq> fmdom' (sent_packets_buffer s')
               \<and> (0 < next_seq_num s' \<longrightarrow>
                    fmdom' (sent_packets_buffer s') \<noteq> {a + 1..<next_seq_num s'}))
         \<and> (\<forall>x y. n = NFloat x \<and> float_add_int c x 1 = Some y \<longrightarrow> base s' = NFloat y)"
proof -
  from assms(3) have ne: "d \<noteq> []"
    by (auto simp: dict_get_def dict_get_default_def)
  with assms(3,4,5,6) have s': "s' = accept_ack c now d n s"
    by (simp add: poll_def process_ack_def)
  from reachable_inv [OF assms(1,2)] have b: "0 \<le> num_val (base s)"
    and k: "fmdom' (sent_packets_buffer s) = {0..<next_seq_num s}"
    by (simp_all add: sender_inv_def)
  have 1: "sent_packets_buffer s' = sent_packets_buffer s" "next_seq_num s' = next_seq_num s"
    unfolding s' by (simp_all add: accept_ack_fields)
  have 2: "base s' = NInt (a + 1)
           \<and> timer_start s' = (if a + 1 < next_seq_num s' then Some now else None)
           \<and> mms s' = (if is_dynamic c
                        then (case map_of d (lit ''maximum message size'') of
                                None \<Rightarrow> mms s | Some v \<Rightarrow> v)
                        else mms s)"
    if "n = NInt a" for a
    unfolding s' that by (simp add: accept_ack_int Let_def split: option.splits)
  have 3: "{a + 1..<next_seq_num s'} \<subseteq> fmdom' (sent_packets_buffer s')
           \<and> (0 < next_seq_num s' \<longrightarrow>
                fmdom' (sent_packets_buffer s') \<noteq> {a + 1..<next_seq_num s'})"
    if "n = NInt a" for a
  proof -
    from that b assms(5) have a: "0 \<le> a" by simp
    have "fmdom' (sent_packets_buffer s') \<noteq> {a + 1..<next_seq_num s'}" if "0 < next_seq_num s'"
    proof
      assume "fmdom' (sent_packets_buffer s') = {a + 1..<next_seq_num s'}"
      moreover have "0 \<in> fmdom' (sent_packets_buffer s')"
        using that k 1 by simp
      ultimately show False using a by simp
    qed
    with a k 1 show ?thesis by auto
  qed
  have 4: "base s' = NFloat y" if "n = NFloat x" "float_add_int c x 1 = Some y" for x y
    unfolding s' using that by (simp add: accept_ack_def Let_def split: option.splits)
  have 5: "fmdom' (sent_packets_buffer s') = {0..<next_seq_num s'}"
    using k 1 by simp
  show ?thesis
    by (intro conjI allI impI) (use 1 2 3 4 5 in blast)+
qed

theorem ack_advances_base_keeps_buffer_witness:
  "poll \<lparr>file_data = lit ''HELLO WORLD'', window_size = 2, timeout = 5, is_dynamic = True,
          float_add_int = exact_add_int, float_sub = exact_sub\<rparr>
     101
     (Some (PDict [(lit ''type'', PStr (lit ''ACK'')), (lit ''ack'', PInt 0),
                   (lit ''maximum message size'', PStr (lit ''big''))]))
     \<lparr>file_cursor = 11,
      sent_packets_buffer = fmupd 1 (lit ''D'') (fmupd 0 (lit ''HELLO WORL'') fmempty),
      base = NInt 0, next_seq_num = 2, timer_start = Some 100, mms = PInt 10\<rparr>
   = \<lparr>file_cursor = 11,
      sent_packets_buffer = fmupd 1 (lit ''D'') (fmupd 0 (lit ''HELLO WORL'') fmempty),
      base = NInt 1, next_seq_num = 2, timer_start = Some 101, mms = PStr (lit ''big'')\<rparr>"
proof -
  let ?c = "\<lparr>file_data = lit ''HELLO WORLD'', window_size = 2, timeout = 5, is_dynamic = True,
          float_add_int = exact_add_int, float_sub = exact_sub\<rparr>"
  let ?s1 = "\<lparr>file_cursor = 11,
       sent_packets_buffer = fmupd 1 (lit ''D'') (fmupd 0 (lit ''HELLO WORL'') fmempty),
       base = NInt 0, next_seq_num = 2, timer_start = Some 100, mms = PInt 10\<rparr>"
  let ?d = "[(lit ''type'', PStr (lit ''ACK'')), (lit ''ack'', PInt 0),
             (lit ''maximum message size'', PStr (lit ''big''))]"
  let ?s' = "poll ?c 101 (Some (PDict ?d)) ?s1"
  have 1: "dict_get ?d (lit ''type'') = PStr (lit ''ACK'')"
    by (simp add: dict_get_def dict_get_default_def)
  have 2: "num_of (dict_get ?d (lit ''ack'')) = Some (NInt 0)"
    by (simp add: dict_get_def dict_get_default_def lit_eq_iff)
  have 3: "num_val (base ?s1) \<le> num_val (NInt 0)" by simp
  have m: "map_of ?d (lit ''maximum message size'') = Some (PStr (lit ''big''))"
    by (simp add: lit_eq_iff)
  note T = ack_advances_base_keeps_buffer
         [where c = ?c and now = 101, OF reachable_hello_world exact_add_sane 1 2 3 refl]
  from T have a: "sent_packets_buffer ?s' = sent_packets_buffer ?s1"
    by (rule conjunct1)
  from T have b: "next_seq_num ?s' = next_seq_num ?s1"
    by blast
  from T have "base ?s' = NInt (0 + 1)
      \<and> timer_start ?s' = (if 0 + 1 < next_seq_num ?s' then Some 101 else None)
      \<and> mms ?s' = (if is_dynamic ?c
                    then (case map_of ?d (lit ''maximum message size'') of
                            None \<Rightarrow> mms ?s1 | Some v \<Rightarrow> v)
                    else mms ?s1)"
    by blast
  then have c: "base ?s' = NInt 1" "timer_start ?s' = Some 101" "mms ?s' = PStr (lit ''big'')"
    unfolding b m by simp_all
  have f: "file_cursor ?s' = 11"
    by (simp add: poll_fields)
  from a b c f show ?thesis
    by (cases ?s') simp
qed

text \<open>
  C3 as stated fails: after segments 0 and 1 are sent and \<open>ack = 0\<close> is processed, \<open>base\<close> is
  1 and the buffer still holds segment 0.
\<close>

theorem ack_keeps_buffer_counterexample:
  "iteration \<lparr>file_data = lit ''HELLO WORLD'', window_size = 2, timeout = 5, is_dynamic = False,
          float_add_int = exact_add_int, float_sub = exact_sub\<rparr>
     \<lparr>t_fill = 100, t_ack = 101, t_check = 102, t_rearm = 103\<rparr>
     (Some (PDict [(lit ''type'', PStr (lit ''ACK'')), (lit ''ack'', PInt 0)]))
     (initial_sender (PInt 10))
   = (None, [data_msg 0 (lit ''HELLO WORL''), data_msg 1 (lit ''D'')],
      \<lparr>file_cursor = 11,
       sent_packets_buffer = fmupd 1 (lit ''D'') (fmupd 0 (lit ''HELLO WORL'') fmempty),
       base = NInt 1, next_seq_num = 2, timer_start = Some 101, mms = PInt 10\<rparr>)
   \<and> (0::int) \<in> fmdom' (fmupd 1 (lit ''D'') (fmupd 0 (lit ''HELLO WORL'') fmempty))
   \<and> (0::int) \<notin> {1..<2}
   \<and> fmlookup (fmupd 1 (lit ''D'') (fmupd 0 (lit ''HELLO WORL'') fmempty)) (0::int)
       = Some (lit ''HELLO WORL'')"
  by (simp add: iteration_def fill_hello_world poll_hello_world check_timeout_def
      timer_expired_def exact_sub_def)




text \<open>
  C5 (as amended).  Both decoders return "no message" for an empty read.  For a record
  that does not parse, the receiver's decoder returns the record of type \<^verbatim>\<open>ERR\<close> with reason
  \<^verbatim>\<open>bad_json\<close>, which differs from "no message"; the sender's decoder returns "no message"
  again.  Neither raises.
\<close>

theorem decoders_on_bad_input:
  "recv_msg loads [] = PNone
   \<and> recv_msg_client loads [] = PNone
   \<and> (line \<noteq> [] \<and> loads line = None \<longrightarrow>
        recv_msg loads line = malformed
        \<and> recv_msg loads line \<noteq> recv_msg loads []
        \<and> dict_get (case malformed of PDict m \<Rightarrow> m) (lit ''type'') = PStr (lit ''ERR'')
        \<and> dict_get (case malformed of PDict m \<Rightarrow> m) (lit ''reason'') = PStr (lit ''bad_json'')
        \<and> recv_msg_client loads line = PNone)"
  by (simp add: recv_msg_def recv_msg_client_def malformed_def dict_get_def dict_get_default_def
      lit_eq_iff)

theorem decoders_on_bad_input_witness:
  "recv_msg Map.empty ''{'' = malformed \<and> recv_msg_client Map.empty ''{'' = PNone"
  using decoders_on_bad_input [of Map.empty "''{''"] by simp

text \<open>
  C5 as stated fails for the sender's decoder: a line that does not parse and an empty
  read give the same result.
\<close>

theorem client_decoder_counterexample:
  "recv_msg_client Map.empty ''{'' = recv_msg_client Map.empty []
   \<and> recv_msg_client Map.empty ''{'' = PNone"
  by (simp add: recv_msg_client_def)

text \<open>
  C6.  Along any run of the receiver's transfer loop the acknowledgment values sent, each
  \<open>rcv_base - 1\<close> at the time (\<open>-1\<close> before anything is delivered), are non-decreasing, and
  no step of the loop decreases \<open>rcv_base\<close>.
\<close>

theorem acks_nondecreasing:
  assumes "transfer_loop cfg segs st = (s, st', out)"
  shows "sorted (acks out)
         \<and> (\<forall>a \<in> set (acks out). rcv_base st - 1 \<le> a)
         \<and> rcv_base st \<le> rcv_base st'
         \<and> rcv_base st \<le> rcv_base (fst (snd (handle_segment cfg seg st)))"
proof -
  obtain s1 st1 out1 where "handle_segment cfg seg st = (s1, st1, out1)"
    by (cases "handle_segment cfg seg st") auto
  from handle_segment_acks [OF this] this have "rcv_base st \<le> rcv_base (fst (snd (handle_segment cfg seg st)))"
    by simp
  with transfer_loop_acks [OF assms] show ?thesis
    by simp
qed

theorem acks_nondecreasing_witness:
  "acks (snd (snd (transfer_loop \<lparr>maximum_message_size = 400, dynamic_message_size = False\<rparr>
      [data_msg 1 (lit ''b''), data_msg 0 (lit ''a''), data_msg 0 (lit ''a'')]
      (initial_receiver \<lparr>maximum_message_size = 400, dynamic_message_size = False\<rparr>))))
   = [- 1, 1, 1]
   \<and> sorted (acks (snd (snd (transfer_loop \<lparr>maximum_message_size = 400, dynamic_message_size = False\<rparr>
      [data_msg 1 (lit ''b''), data_msg 0 (lit ''a''), data_msg 0 (lit ''a'')]
      (initial_receiver \<lparr>maximum_message_size = 400, dynamic_message_size = False\<rparr>)))))"
proof -
  let ?cfg = "\<lparr>maximum_message_size = 400, dynamic_message_size = False\<rparr>"
  let ?segs = "[data_msg 1 (lit ''b''), data_msg 0 (lit ''a''), data_msg 0 (lit ''a'')]"
  let ?out = "[Send (PDict [(lit ''type'', PStr (lit ''ACK'')), (lit ''ack'', PInt (- 1))]),
               Send (PDict [(lit ''type'', PStr (lit ''ACK'')), (lit ''ack'', PInt 1)]),
               Send (PDict [(lit ''type'', PStr (lit ''ACK'')), (lit ''ack'', PInt 1)])]"
  have t: "transfer_loop ?cfg ?segs (initial_receiver ?cfg)
        = (Continue,
           \<lparr>rcv_base = 2, rcv_buffer = fmempty, app_data = [lit ''a'', lit ''b''], mss = 400\<rparr>,
           ?out)"
    by (simp add: handle_segment_def handle_data_def data_msg_def dict_get_def
        dict_get_default_def lit_eq_iff initial_receiver_def reassemble_def drain.simps
        adapt_def send_ack_def fmdrop_fmupd lit_def utf8_size_def)
  have a: "acks ?out = [- 1, 1, 1]"
    by (simp add: dict_get_def dict_get_default_def lit_eq_iff)
  from acks_nondecreasing [OF t] have "sorted (acks ?out)"
    by (rule conjunct1)
  with a show ?thesis
    unfolding t by simp
qed

text \<open>
  C7.  In every receiver state, a DATA message whose \<^verbatim>\<open>seq\<close> is an integer below
  \<open>rcv_base\<close> leaves the delivered data, \<open>rcv_base\<close>, the reorder buffer (and the segment
  size) as they were, and sends exactly one acknowledgment, whose \<^verbatim>\<open>ack\<close> field is
  \<open>rcv_base - 1\<close>.  This holds whatever the payload field is.
\<close>

theorem duplicate_data_only_acked:
  assumes "dict_get d (lit ''type'') = PStr (lit ''DATA'')"
    and "int_of (dict_get d (lit ''seq'')) = Some q"
    and "q < rcv_base st"
  shows "handle_segment cfg (PDict d) st = (Continue, st, [Send (send_ack cfg st)])
         \<and> dict_get (case send_ack cfg st of PDict a \<Rightarrow> a) (lit ''ack'') = PInt (rcv_base st - 1)
         \<and> dict_get (case send_ack cfg st of PDict a \<Rightarrow> a) (lit ''type'') = PStr (lit ''ACK'')"
proof -
  from assms(1) have "d \<noteq> []"
    by (auto simp: dict_get_def dict_get_default_def)
  with assms show ?thesis
    by (simp add: handle_segment_def handle_data_def lit_eq_iff send_ack_def
        dict_get_def dict_get_default_def)
qed

theorem duplicate_data_only_acked_witness:
  "handle_segment \<lparr>maximum_message_size = 400, dynamic_message_size = False\<rparr>
     (data_msg 1 (lit ''abc''))
     \<lparr>rcv_base = 2, rcv_buffer = fmempty, app_data = [lit ''ab'', lit ''cd''], mss = 400\<rparr>
   = (Continue,
      \<lparr>rcv_base = 2, rcv_buffer = fmempty, app_data = [lit ''ab'', lit ''cd''], mss = 400\<rparr>,
      [Send (PDict [(lit ''type'', PStr (lit ''ACK'')), (lit ''ack'', PInt 1)])])"
proof -
  let ?d = "[(lit ''type'', PStr (lit ''DATA'')), (lit ''seq'', PInt 1),
             (lit ''payload'', PStr (lit ''abc''))]"
  let ?st = "\<lparr>rcv_base = 2, rcv_buffer = fmempty, app_data = [lit ''ab'', lit ''cd''],
              mss = 400\<rparr>"
  have 1: "dict_get ?d (lit ''type'') = PStr (lit ''DATA'')"
    by (simp add: dict_get_def dict_get_default_def)
  have 2: "int_of (dict_get ?d (lit ''seq'')) = Some 1"
    by (simp add: dict_get_def dict_get_default_def lit_eq_iff)
  have 3: "(1::int) < rcv_base ?st"
    by simp
  show ?thesis
    using duplicate_data_only_acked [OF 1 2 3, of "\<lparr>maximum_message_size = 400, dynamic_message_size = False\<rparr>"]
    by (simp add: data_msg_def send_ack_def)
qed

text \<open>
  C8.  With the adaptive flag set, after a DATA segment is accepted (integer \<^verbatim>\<open>seq\<close> at or
  above \<open>rcv_base\<close>, payload within the segment size) and reassembled: if the reorder buffer
  holds more than 2 entries the segment size becomes \<open>max 20 (mss - 20)\<close>, so never below
  20; otherwise, if the buffer is empty, it becomes
  \<open>min maximum_message_size (mss + 10)\<close>, so never above the configured ceiling; otherwise
  it is unchanged.
\<close>

theorem adaptive_segment_size:
  assumes "dynamic_message_size cfg"
    and "dict_get d (lit ''type'') = PStr (lit ''DATA'')"
    and "int_of (dict_get d (lit ''seq'')) = Some q"
    and "rcv_base st \<le> q"
    and "dict_get_default d (lit ''payload'') (PStr []) = PStr p"
    and "encode_len p = Some n"
    and "int n \<le> mss st"
    and "handle_segment cfg (PDict d) st = (s, st', out)"
  shows "rcv_buffer st' = rcv_buffer (reassemble q p st)
         \<and> (2 < fcard (fmdom (rcv_buffer st')) \<longrightarrow>
              mss st' = max 20 (mss st - 20) \<and> 20 \<le> mss st')
         \<and> (rcv_buffer st' = fmempty \<longrightarrow>
              mss st' = min (maximum_message_size cfg) (mss st + 10)
              \<and> mss st' \<le> maximum_message_size cfg)
         \<and> (\<not> 2 < fcard (fmdom (rcv_buffer st')) \<and> rcv_buffer st' \<noteq> fmempty \<longrightarrow>
              mss st' = mss st)
         \<and> s = Continue \<and> out = [Send (send_ack cfg st')]"
proof -
  from assms(2) have "d \<noteq> []"
    by (auto simp: dict_get_def dict_get_default_def)
  with assms(1-7) have "handle_segment cfg (PDict d) st =
      (Continue, adapt cfg (reassemble q p st), [Send (send_ack cfg (adapt cfg (reassemble q p st)))])"
    by (simp add: handle_segment_def handle_data_def lit_eq_iff Let_def)
  with assms(8) have e: "st' = adapt cfg (reassemble q p st)"
    and r: "s = Continue \<and> out = [Send (send_ack cfg st')]"
    by auto
  have "rcv_buffer st' = rcv_buffer (reassemble q p st)"
    and "2 < fcard (fmdom (rcv_buffer st')) \<longrightarrow> mss st' = max 20 (mss st - 20) \<and> 20 \<le> mss st'"
    and "rcv_buffer st' = fmempty \<longrightarrow>
           mss st' = min (maximum_message_size cfg) (mss st + 10)
           \<and> mss st' \<le> maximum_message_size cfg"
    and "\<not> 2 < fcard (fmdom (rcv_buffer st')) \<and> rcv_buffer st' \<noteq> fmempty \<longrightarrow> mss st' = mss st"
    unfolding e using assms(1) by (auto simp: adapt_def reassemble_mss fcard_fempty)
  with r show ?thesis
    by blast
qed

theorem adaptive_segment_size_witness:
  "mss (fst (snd (handle_segment \<lparr>maximum_message_size = 400, dynamic_message_size = True\<rparr>
     (data_msg 4 (lit ''e''))
     \<lparr>rcv_base = 1,
      rcv_buffer = fmupd 3 (lit ''d'') (fmupd 2 (lit ''c'') fmempty),
      app_data = [lit ''a''], mss = 400\<rparr>))) = 380"
proof -
  let ?cfg = "\<lparr>maximum_message_size = 400, dynamic_message_size = True\<rparr>"
  let ?d = "[(lit ''type'', PStr (lit ''DATA'')), (lit ''seq'', PInt 4),
             (lit ''payload'', PStr (lit ''e''))]"
  let ?st = "\<lparr>rcv_base = 1,
      rcv_buffer = fmupd 3 (lit ''d'') (fmupd 2 (lit ''c'') fmempty),
      app_data = [lit ''a''], mss = 400\<rparr>"
  obtain s st' out where h: "handle_segment ?cfg (PDict ?d) ?st = (s, st', out)"
    by (cases "handle_segment ?cfg (PDict ?d) ?st") auto
  have 1: "dynamic_message_size ?cfg" by simp
  have 2: "dict_get ?d (lit ''type'') = PStr (lit ''DATA'')"
    by (simp add: dict_get_def dict_get_default_def)
  have 3: "int_of (dict_get ?d (lit ''seq'')) = Some 4"
    by (simp add: dict_get_def dict_get_default_def lit_eq_iff)
  have 4: "rcv_base ?st \<le> 4" by simp
  have 5: "dict_get_default ?d (lit ''payload'') (PStr []) = PStr (lit ''e'')"
    by (simp add: dict_get_default_def lit_eq_iff)
  have 6: "encode_len (lit ''e'') = Some 1"
    by (simp add: lit_def utf8_size_def)
  have 7: "int 1 \<le> mss ?st" by simp
  have b: "rcv_buffer (reassemble 4 (lit ''e'') ?st)
           = fmupd 4 (lit ''e'') (fmupd 3 (lit ''d'') (fmupd 2 (lit ''c'') fmempty))"
    by (simp add: reassemble_def drain.simps)
  have "2 < fcard (fmdom (fmupd (4::int) (lit ''e'') (fmupd 3 (lit ''d'') (fmupd 2 (lit ''c'') fmempty))))"
    by (simp add: fcard_finsert_if)
  with adaptive_segment_size [OF 1 2 3 4 5 6 7 h] b have "mss st' = 380"
    by simp
  with h show ?thesis
    by (simp add: data_msg_def)
qed

text \<open>
  C9.  In the transfer loop, a decoded value that is not a record of type DATA or FIN is
  dropped: nothing is sent and the receiver state (\<open>rcv_base\<close>, reorder buffer, delivered
  data, segment size) is unchanged.  For a non-empty record the loop goes on; this covers
  the record the decoder builds for a line that does not parse.
\<close>

theorem other_message_discarded:
  assumes "\<forall>d. seg = PDict d \<longrightarrow>
             dict_get d (lit ''type'') \<noteq> PStr (lit ''FIN'')
             \<and> dict_get d (lit ''type'') \<noteq> PStr (lit ''DATA'')"
  shows "snd (handle_segment cfg seg st) = (st, [])
         \<and> ((\<exists>d. seg = PDict d \<and> d \<noteq> []) \<longrightarrow> handle_segment cfg seg st = (Continue, st, []))
         \<and> handle_segment cfg malformed st = (Continue, st, [])
         \<and> (line \<noteq> [] \<and> loads line = None \<longrightarrow>
              handle_segment cfg (recv_msg loads line) st = (Continue, st, []))"
proof -
  have m: "handle_segment cfg malformed st = (Continue, st, [])"
    by (simp add: handle_segment_def malformed_def dict_get_def dict_get_default_def lit_eq_iff)
  have "snd (handle_segment cfg seg st) = (st, [])"
    using assms by (cases seg) (simp_all add: handle_segment_def)
  moreover have "handle_segment cfg seg st = (Continue, st, [])" if "seg = PDict d" "d \<noteq> []" for d
    using assms that by (simp add: handle_segment_def)
  ultimately show ?thesis
    using m by (auto simp: recv_msg_def)
qed

theorem other_message_discarded_witness:
  "handle_segment \<lparr>maximum_message_size = 400, dynamic_message_size = True\<rparr>
     (PDict [(lit ''type'', PStr (lit ''ACK'')), (lit ''ack'', PInt 7)])
     \<lparr>rcv_base = 1, rcv_buffer = fmupd 2 (lit ''c'') fmempty, app_data = [lit ''a''], mss = 390\<rparr>
   = (Continue,
      \<lparr>rcv_base = 1, rcv_buffer = fmupd 2 (lit ''c'') fmempty, app_data = [lit ''a''], mss = 390\<rparr>,
      [])"
proof -
  let ?seg = "PDict [(lit ''type'', PStr (lit ''ACK'')), (lit ''ack'', PInt 7)]"
  have "\<forall>d. ?seg = PDict d \<longrightarrow>
             dict_get d (lit ''type'') \<noteq> PStr (lit ''FIN'')
             \<and> dict_get d (lit ''type'') \<noteq> PStr (lit ''DATA'')"
    by (simp add: dict_get_def dict_get_default_def lit_eq_iff)
  from other_message_discarded [OF this] show ?thesis
    by simp
qed

text \<open>
  C10 (as amended).  A DATA message without a payload field, with integer \<^verbatim>\<open>seq\<close> at or
  above \<open>rcv_base\<close>, is handled as the same message with the empty string as payload.  It
  passes the size check for every segment size that is not negative and is stored in the
  reorder buffer at its \<^verbatim>\<open>seq\<close>.  When \<^verbatim>\<open>seq\<close> equals \<open>rcv_base\<close>, the drain appends the
  empty string to the delivered data and advances \<open>rcv_base\<close> by one, then goes on through
  the buffered successors: \<open>rcv_base\<close> advances by exactly one when \<open>seq + 1\<close> is not
  buffered.
\<close>

theorem absent_payload_is_empty_string:
  assumes "dict_get d (lit ''type'') = PStr (lit ''DATA'')"
    and "int_of (dict_get d (lit ''seq'')) = Some q"
    and "rcv_base st \<le> q"
    and "map_of d (lit ''payload'') = None"
    and "0 \<le> mss st"
  shows "handle_segment cfg (PDict d) st
           = (Continue, adapt cfg (reassemble q [] st),
              [Send (send_ack cfg (adapt cfg (reassemble q [] st)))])
         \<and> handle_segment cfg (PDict d) st
             = handle_segment cfg (PDict ((lit ''payload'', PStr []) # d)) st
         \<and> reassemble q [] st = drain (st\<lparr>rcv_buffer := fmupd q [] (rcv_buffer st)\<rparr>)
         \<and> (rcv_base st < q \<and> fmlookup (rcv_buffer st) (rcv_base st) = None \<longrightarrow>
              reassemble q [] st = st\<lparr>rcv_buffer := fmupd q [] (rcv_buffer st)\<rparr>)
         \<and> (q = rcv_base st \<longrightarrow>
              reassemble q [] st
                = drain (st\<lparr>app_data := app_data st @ [[]],
                            rcv_buffer := fmdrop q (rcv_buffer st),
                            rcv_base := rcv_base st + 1\<rparr>)
              \<and> rcv_base st + 1 \<le> rcv_base (reassemble q [] st)
              \<and> take (Suc (length (app_data st))) (app_data (reassemble q [] st))
                  = app_data st @ [[]]
              \<and> (fmlookup (rcv_buffer st) (q + 1) = None \<longrightarrow>
                   reassemble q [] st
                     = st\<lparr>app_data := app_data st @ [[]],
                          rcv_buffer := fmdrop q (rcv_buffer st),
                          rcv_base := rcv_base st + 1\<rparr>))"
proof -
  from assms(1) have ne: "d \<noteq> []"
    by (auto simp: dict_get_def dict_get_default_def)
  have pl: "dict_get_default d (lit ''payload'') (PStr []) = PStr []"
    using assms(4) by (simp add: dict_get_default_def)
  have 1: "handle_segment cfg (PDict d) st
           = (Continue, adapt cfg (reassemble q [] st),
              [Send (send_ack cfg (adapt cfg (reassemble q [] st)))])"
    using assms ne pl by (simp add: handle_segment_def handle_data_def lit_eq_iff Let_def)
  have "dict_get ((lit ''payload'', PStr []) # d) (lit ''type'') = dict_get d (lit ''type'')"
    and "dict_get ((lit ''payload'', PStr []) # d) (lit ''seq'') = dict_get d (lit ''seq'')"
    and "dict_get_default ((lit ''payload'', PStr []) # d) (lit ''payload'') (PStr [])
         = dict_get_default d (lit ''payload'') (PStr [])"
    using pl by (simp_all add: dict_get_def dict_get_default_def lit_eq_iff)
  then have 2: "handle_segment cfg (PDict ((lit ''payload'', PStr []) # d)) st
                = handle_segment cfg (PDict d) st"
    using ne by (simp add: handle_segment_def Let_def)
  have 3: "reassemble q [] st = drain (st\<lparr>rcv_buffer := fmupd q [] (rcv_buffer st)\<rparr>)"
    using assms(3) by (simp add: reassemble_def)
  have 4: "reassemble q [] st = st\<lparr>rcv_buffer := fmupd q [] (rcv_buffer st)\<rparr>"
    if "rcv_base st < q" "fmlookup (rcv_buffer st) (rcv_base st) = None"
    unfolding 3 using that by (intro drain_idle) simp
  let ?st = "st\<lparr>app_data := app_data st @ [[]],
                 rcv_buffer := fmdrop q (rcv_buffer st),
                 rcv_base := rcv_base st + 1\<rparr>"
  have 5: "reassemble q [] st = drain ?st" if "q = rcv_base st"
    unfolding 3 using that
    by (subst drain.simps) (simp add: fmdrop_fmupd_same)
  have 6: "rcv_base st + 1 \<le> rcv_base (reassemble q [] st)" if "q = rcv_base st"
    using drain_rcv_base_le [of ?st] 5 [OF that] by simp
  have 7: "take (Suc (length (app_data st))) (app_data (reassemble q [] st)) = app_data st @ [[]]"
    if "q = rcv_base st"
    using drain_app_data_prefix [of ?st] 5 [OF that] by simp
  have 8: "reassemble q [] st = ?st"
    if "q = rcv_base st" "fmlookup (rcv_buffer st) (q + 1) = None"
    unfolding 5 [OF that(1)] using that by (intro drain_idle) simp
  from 1 2 3 4 5 6 7 8 show ?thesis
    by simp
qed

theorem absent_payload_is_empty_string_witness:
  "handle_segment \<lparr>maximum_message_size = 400, dynamic_message_size = False\<rparr>
     (PDict [(lit ''type'', PStr (lit ''DATA'')), (lit ''seq'', PInt 0)])
     \<lparr>rcv_base = 0, rcv_buffer = fmempty, app_data = [], mss = 0\<rparr>
   = (Continue, \<lparr>rcv_base = 1, rcv_buffer = fmempty, app_data = [[]], mss = 0\<rparr>,
      [Send (PDict [(lit ''type'', PStr (lit ''ACK'')), (lit ''ack'', PInt 0)])])"
proof -
  let ?cfg = "\<lparr>maximum_message_size = 400, dynamic_message_size = False\<rparr>"
  let ?d = "[(lit ''type'', PStr (lit ''DATA'')), (lit ''seq'', PInt 0)]"
  let ?st = "\<lparr>rcv_base = 0, rcv_buffer = fmempty, app_data = [], mss = 0\<rparr>"
  have 1: "dict_get ?d (lit ''type'') = PStr (lit ''DATA'')"
    by (simp add: dict_get_def dict_get_default_def)
  have 2: "int_of (dict_get ?d (lit ''seq'')) = Some 0"
    by (simp add: dict_get_def dict_get_default_def lit_eq_iff)
  have 3: "rcv_base ?st \<le> 0" by simp
  have 4: "map_of ?d (lit ''payload'') = None"
    by (simp add: lit_eq_iff)
  have 5: "0 \<le> mss ?st" by simp
  have r: "reassemble 0 [] ?st = \<lparr>rcv_base = 1, rcv_buffer = fmempty, app_data = [[]], mss = 0\<rparr>"
    by (simp add: reassemble_def drain.simps fmdrop_fmupd)
  have "handle_segment ?cfg (PDict ?d) ?st
        = (Continue, adapt ?cfg (reassemble 0 [] ?st),
           [Send (send_ack ?cfg (adapt ?cfg (reassemble 0 [] ?st)))])"
    using absent_payload_is_empty_string [OF 1 2 3 4 5, of ?cfg] by (rule conjunct1)
  then show ?thesis
    unfolding r by (simp add: adapt_def send_ack_def)
qed

text \<open>
  C10 as stated fails: with segment 1 buffered, the message with \<^verbatim>\<open>seq = 0\<close> advances
  \<open>rcv_base\<close> from 0 to 2; and with a segment size of \<open>-1\<close> the message is rejected by the
  size check.
\<close>

theorem absent_payload_counterexample:
  "handle_segment \<lparr>maximum_message_size = 400, dynamic_message_size = False\<rparr>
     (PDict [(lit ''type'', PStr (lit ''DATA'')), (lit ''seq'', PInt 0)])
     \<lparr>rcv_base = 0, rcv_buffer = fmupd 1 (lit ''x'') fmempty, app_data = [], mss = 400\<rparr>
   = (Continue,
      \<lparr>rcv_base = 2, rcv_buffer = fmempty, app_data = [[], lit ''x''], mss = 400\<rparr>,
      [Send (PDict [(lit ''type'', PStr (lit ''ACK'')), (lit ''ack'', PInt 1)])])
   \<and> handle_segment \<lparr>maximum_message_size = - 1, dynamic_message_size = False\<rparr>
     (PDict [(lit ''type'', PStr (lit ''DATA'')), (lit ''seq'', PInt 0)])
     \<lparr>rcv_base = 0, rcv_buffer = fmempty, app_data = [], mss = - 1\<rparr>
   = (Continue,
      \<lparr>rcv_base = 0, rcv_buffer = fmempty, app_data = [], mss = - 1\<rparr>,
      [Send (PDict [(lit ''type'', PStr (lit ''ACK'')), (lit ''ack'', PInt (- 1))])])"
  by (simp add: handle_segment_def handle_data_def dict_get_def dict_get_default_def lit_eq_iff
      reassemble_def drain.simps adapt_def send_ack_def fmdrop_fmupd)

end
